theory Spec2Isabelle
  imports Main "HOL-Library.Sublist"
begin

section \<open>Go strings and errors\<close>

text \<open>
  Go strings are byte sequences; they are modelled as \<open>string\<close> (a \<open>char list\<close>).
  \<open>strings.Contains s substr\<close> reports whether \<open>substr\<close> occurs in \<open>s\<close>;
  \<open>strings.Join elems sep\<close> concatenates with the separator between neighbours.
\<close>

fun strings_Contains :: "string \<Rightarrow> string \<Rightarrow> bool" where
  "strings_Contains [] substr = (substr = [])"
| "strings_Contains (c # cs) substr = (prefix substr (c # cs) \<or> strings_Contains cs substr)"

fun strings_Join :: "string list \<Rightarrow> string \<Rightarrow> string" where
  "strings_Join [] sep = []"
| "strings_Join [x] sep = x"
| "strings_Join (x # y # zs) sep = x @ sep @ strings_Join (y # zs) sep"

text \<open>
  A Go \<open>error\<close> value: the dynamic type that \<open>errors.As\<close> and \<open>reflect.TypeOf\<close>
  inspect, and the text of \<open>Error()\<close>. \<open>errors.New\<close> builds a \<open>PlainError\<close>.
  A function that may fail returns \<open>failure option\<close> (\<open>None\<close> is Go's \<open>nil\<close> error) or
  \<open>failure + 'a\<close>; a run-time panic is a failure of its own, and so is the end of
  the process by \<open>log.Fatal\<close>.
\<close>

datatype err_kind =
    NoLeaderError
  | AllTopologyNodesDownError
  | DatabaseDoesNotExistError
  | ConcurrencyError
  | PlainError

datatype go_error = GoError (err_kind: err_kind) (err_text: string)

datatype failure = Err go_error | Panic string | Fatal go_error

definition errors_New :: "string \<Rightarrow> go_error" where
  "errors_New msg = GoError PlainError msg"

section \<open>DNS verification (GetDnsLookup)\<close>

text \<open>
  The loop of \<open>GetDnsLookup\<close> over the resolved addresses: every address is appended to
  \<open>ipsStringSlice\<close>, and \<open>isUpdatedDns\<close> is raised when one equals \<open>hostIp\<close>.
\<close>

fun dns_scan :: "string \<Rightarrow> string list \<Rightarrow> bool \<times> string list \<Rightarrow> bool \<times> string list" where
  "dns_scan hostIp [] st = st"
| "dns_scan hostIp (ip # ips) (isUpdatedDns, ipsStringSlice) =
     dns_scan hostIp ips
       (if hostIp = ip then True else isUpdatedDns, ipsStringSlice @ [ip])"

text \<open>
  \<open>url.Parse\<close> and \<open>net.LookupIP\<close> are the two calls into the environment; they are
  parameters. \<open>url_Parse\<close> yields the \<open>Host\<close> of the URL or an error (on which the source
  panics); \<open>net_LookupIP\<close> yields the textual form of each resolved address or an error
  (which the source returns).
\<close>

definition GetDnsLookup ::
  "(string \<Rightarrow> go_error + string) \<Rightarrow> (string \<Rightarrow> go_error + string list) \<Rightarrow>
   string \<Rightarrow> string \<Rightarrow> failure option" where
  "GetDnsLookup url_Parse net_LookupIP httpUrl hostIp =
     (case url_Parse httpUrl of
        Inl e \<Rightarrow> Some (Panic (err_text e))
      | Inr host \<Rightarrow>
          (case net_LookupIP host of
             Inl e \<Rightarrow> Some (Err e)
           | Inr ips \<Rightarrow>
               (case dns_scan hostIp ips (False, []) of
                  (isUpdatedDns, ipsStringSlice) \<Rightarrow>
                    if isUpdatedDns = False
                    then Some (Err (errors_New
                           (''Tried to resolve '' @ [CHR 0x27] @ host @ [CHR 0x27]
                            @ ''but got an outdated result''
                            @ [CHR 0x0A] @ ''Expected to get these ips: '' @ hostIp
                            @ '' while the actual result was: ''
                            @ strings_Join ipsStringSlice [CHR 0x0A])))
                    else None)))"

section \<open>Remote shell connection with retry (ConnectToRemoteWithRetry)\<close>

definition NUMBER_OF_RETRIES :: nat where
  "NUMBER_OF_RETRIES = 5"

text \<open>Decimal printing, as \<open>strconv.Itoa\<close> and \<open>fmt.Sprint\<close> do for an \<open>int\<close>.\<close>

definition digit_char :: "nat \<Rightarrow> char" where
  "digit_char d = char_of (48 + d)"

fun nat_decimal :: "nat \<Rightarrow> string" where
  "nat_decimal n =
     (if n < 10 then [digit_char n] else nat_decimal (n div 10) @ [digit_char (n mod 10)])"

definition strconv_Itoa :: "int \<Rightarrow> string" where
  "strconv_Itoa i = (if i < 0 then CHR ''-'' # nat_decimal (nat (- i)) else nat_decimal (nat i))"

text \<open>\<open>net.JoinHostPort\<close>: a host with a colon is taken for an IPv6 literal and bracketed.\<close>

definition net_JoinHostPort :: "string \<Rightarrow> string \<Rightarrow> string" where
  "net_JoinHostPort host port =
     (if CHR '':'' \<in> set host then ''['' @ host @ '']:'' @ port else host @ '':'' @ port)"

record SSH =
  User :: string
  Pem :: string
  Port :: int

definition getPort :: "SSH \<Rightarrow> int" where
  "getPort s = (if Port s \<noteq> 0 then Port s else 22)"

text \<open>
  What the connection attempt does to the outside world: a dial to an address, or a
  pause of so many seconds.
\<close>

datatype ssh_event = SshDial string | SshSleep nat

fun is_dial :: "ssh_event \<Rightarrow> bool" where
  "is_dial (SshDial a) = True"
| "is_dial (SshSleep n) = False"

text \<open>
  The loop \<open>for i := 0; i <= NUMBER_OF_RETRIES; i++\<close>. The parameter \<open>ssh_Dial i\<close> is
  the answer of the network to the dial made in iteration \<open>i\<close>: an error or a
  connection. \<open>conn\<close> is the variable of that name (\<open>None\<close> is \<open>nil\<close>); the events are
  appended to \<open>evs\<close>.
\<close>

function connect_loop ::
  "(nat \<Rightarrow> go_error + 'c) \<Rightarrow> string \<Rightarrow> nat \<Rightarrow> 'c option \<Rightarrow> ssh_event list
   \<Rightarrow> (go_error + 'c option) \<times> ssh_event list" where
  "connect_loop ssh_Dial hostAndPort i conn evs =
     (if i \<le> NUMBER_OF_RETRIES then
        (case ssh_Dial i of
           Inl err \<Rightarrow>
             if i < NUMBER_OF_RETRIES
             then connect_loop ssh_Dial hostAndPort (i + 1) None
                    (evs @ [SshDial hostAndPort, SshSleep 2])
             else (Inl (errors_New (''Unable to SSH to '' @ hostAndPort
                                    @ '' because '' @ err_text err)),
                   evs @ [SshDial hostAndPort])
         | Inr c \<Rightarrow> (Inr (Some c), evs @ [SshDial hostAndPort]))
      else (Inr conn, evs))"
  by pat_completeness auto
termination
  by (relation "measure (\<lambda>(d, h, i, c, evs). Suc NUMBER_OF_RETRIES - i)")
     (auto simp: NUMBER_OF_RETRIES_def)

declare connect_loop.simps [simp del]

definition ConnectToRemoteWithRetry ::
  "(nat \<Rightarrow> go_error + 'c) \<Rightarrow> SSH \<Rightarrow> string \<Rightarrow> 'c option
   \<Rightarrow> (go_error + 'c option) \<times> ssh_event list" where
  "ConnectToRemoteWithRetry ssh_Dial ssh publicIP conn =
     connect_loop ssh_Dial (net_JoinHostPort publicIP (strconv_Itoa (getPort ssh))) 0 conn []"

text \<open>A network on which no dial ever succeeds, and one that accepts the fourth dial.\<close>

definition dial_refused :: "nat \<Rightarrow> go_error + nat" where
  "dial_refused i = Inl (errors_New ''connection refused'')"

definition dial_fourth :: "nat \<Rightarrow> go_error + nat" where
  "dial_fourth i = (if i < 3 then Inl (errors_New ''connection refused'') else Inr i)"

definition ssh_default :: SSH where
  "ssh_default = \<lparr>User = ''ubuntu'', Pem = [], Port = 0\<rparr>"

section \<open>Desired state and the administrative client\<close>

text \<open>
  \<open>strings.ToUpper\<close> and \<open>strings.TrimSpace\<close> belong to the Go library and work on
  Unicode text: the first maps every letter to its upper case, the second cuts every
  leading and trailing Unicode white space. They are parameters of the model, the two
  fields of \<open>lib\<close>, and every result below holds whatever the two functions are.
\<close>

record go_strings =
  strings_ToUpper :: "string \<Rightarrow> string"
  strings_TrimSpace :: "string \<Rightarrow> string"

text \<open>
  The examples use strings of ASCII letters, digits and punctuation only. On such strings
  \<open>strings.ToUpper\<close> maps \<open>a\<close> to \<open>z\<close> to \<open>A\<close> to \<open>Z\<close> and leaves the rest, and
  \<open>strings.TrimSpace\<close> cuts tab, line feed, vertical tab, form feed, carriage return and
  space; \<open>ascii_strings\<close> is the library of the examples, and of them only.
\<close>

definition ascii_upper :: "char \<Rightarrow> char" where
  "ascii_upper c =
     (let n = (of_char c :: nat) in if 97 \<le> n \<and> n \<le> 122 then char_of (n - 32) else c)"

definition ascii_space :: "char \<Rightarrow> bool" where
  "ascii_space c = ((of_char c :: nat) \<in> {9, 10, 11, 12, 13, 32})"

definition ascii_strings :: go_strings where
  "ascii_strings =
     \<lparr>strings_ToUpper = map ascii_upper,
      strings_TrimSpace = (\<lambda>s. rev (dropWhile ascii_space (rev (dropWhile ascii_space s))))\<rparr>"

text \<open>
  The structures of the desired state. Several Go structures have a field \<open>Name\<close> or
  \<open>Settings\<close>; a prefix keeps them apart here. Go maps from strings to strings are
  partial functions.
\<close>

record Index =
  IndexName :: string
  Maps :: "string list"
  Reduce :: string
  Configuration :: "string \<rightharpoonup> string"

record Database =
  db_Name :: string
  db_Settings :: "string \<rightharpoonup> string"
  ReplicationNodes :: "string list"
  Key :: string
  Indexes :: "Index list"

record DatabaseToDelete =
  dd_Name :: string
  HardDelete :: bool

record IndexesToDelete =
  DatabaseName :: string
  IndexesNames :: "string list"

record CertificateHolder =
  Pfx :: string
  Cert :: string
  Key_bytes :: string
  SettingsJson :: string
  License :: string

record ServerConfig =
  Hosts :: "string list"
  ClusterSetupZip :: "string \<rightharpoonup> CertificateHolder"
  Url_List :: "string list"
  Unsecured :: bool
  sc_SSH :: SSH
  HealthcheckDatabase :: string
  Databases :: "Database list"
  DatabasesToDelete :: "DatabaseToDelete list"
  IndexesToDelete :: "IndexesToDelete list"

definition CREDENTIALS_FOR_SECURE_STORE_FIELD_NAME :: string where
  "CREDENTIALS_FOR_SECURE_STORE_FIELD_NAME = ''store''"

text \<open>The client library's records that the operations carry.\<close>

record DatabaseTopology =
  Members :: "string list"
  ReplicationFactor :: nat
  DynamicNodesDistribution :: bool

record DatabaseRecord =
  rec_DatabaseName :: string
  rec_Settings :: "string \<rightharpoonup> string"
  Encrypted :: bool
  rec_DatabaseTopology :: "DatabaseTopology option"

record IndexDefinition =
  def_Name :: string
  def_Maps :: "string list"
  def_Reduce :: "string option"
  def_Configuration :: "string \<rightharpoonup> string"

record ClusterTopology =
  TopologyID :: string
  topology_Members :: "string list"
  CurrentState :: string

text \<open>
  The operations sent through the client, and what the reconciler does to the outside
  world: a server-wide operation (\<open>store.Maintenance().Server().Send\<close>), a maintenance
  operation on one database (\<open>store.Maintenance().ForDatabase(db).Send\<close>, or
  \<open>store.Maintenance().Send\<close> on the store's own database), the database topology
  command run on a database's request executor, and a pause in seconds.
\<close>

datatype operation =
    OperationGetClusterTopology
  | OperationDatabaseHealthCheck
  | CreateDatabaseOperation DatabaseRecord nat
  | DeleteDatabasesOperation string bool
  | DeleteDatabasesOperationWithParameters "string list" bool "string list"
  | OperationAddDatabaseNode string string
  | OperationDistributeSecretKey string "string list" string
  | PutIndexesOperation IndexDefinition
  | DeleteIndexOperation string

datatype event =
    ServerSend operation
  | MaintenanceSend string operation
  | GetDatabaseTopologyCommand string
  | Sleep nat

text \<open>
  The remote cluster is an opaque client: what it answers may depend on everything sent
  so far. \<open>answers log ev\<close> is the error (or \<open>None\<close>) it returns to request \<open>ev\<close> made
  after the history \<open>log\<close>; \<open>cluster_topology log\<close> is the topology a successful
  get-cluster-topology has filled in when the history is \<open>log\<close>; \<open>database_nodes log db\<close>
  is the result of the database topology command, the cluster tags of its nodes, or
  \<open>None\<close> for a \<open>nil\<close> result. \<open>open_error\<close> stands for the key pair parsing,
  certificate parsing and \<open>Initialize\<close> of \<open>getStore\<close>.
\<close>

record cluster =
  open_error :: "CertificateHolder \<Rightarrow> go_error option"
  answers :: "event list \<Rightarrow> event \<Rightarrow> go_error option"
  cluster_topology :: "event list \<Rightarrow> ClusterTopology"
  database_nodes :: "event list \<Rightarrow> string \<Rightarrow> string list option"

record DocumentStore =
  store_Database :: string
  store_cluster :: cluster

definition getStore ::
  "go_strings \<Rightarrow> cluster \<Rightarrow> ServerConfig \<Rightarrow> CertificateHolder \<Rightarrow> go_error + DocumentStore" where
  "getStore lib cl config certificateHolder =
     (let db = (if length (strings_TrimSpace lib (HealthcheckDatabase config)) \<noteq> 0
                then HealthcheckDatabase config else [])
      in case open_error cl certificateHolder of
           Some e \<Rightarrow> Inl e
         | None \<Rightarrow> Inr \<lparr>store_Database = db, store_cluster = cl\<rparr>)"

subsection \<open>Retry\<close>

text \<open>
  \<open>executeWithRetries\<close>: the loop \<open>for i := 0; i < NUMBER_OF_RETRIES; i++\<close>, with the
  number of iterations left as the recursion argument and \<open>err\<close> the variable of that
  name. The source tests the no-leader class twice.
\<close>

fun executeWithRetries_loop ::
  "DocumentStore \<Rightarrow> operation \<Rightarrow> nat \<Rightarrow> go_error option \<Rightarrow> event list
   \<Rightarrow> go_error option \<times> event list" where
  "executeWithRetries_loop store operation 0 err log = (err, log)"
| "executeWithRetries_loop store operation (Suc n) err log =
     (case answers (store_cluster store) log (ServerSend operation) of
        None \<Rightarrow> (None, log @ [ServerSend operation])
      | Some e \<Rightarrow>
          if err_kind e \<noteq> NoLeaderError \<and> err_kind e \<noteq> NoLeaderError
          then (Some e, log @ [ServerSend operation])
          else executeWithRetries_loop store operation n (Some e)
                 (log @ [ServerSend operation, Sleep 5]))"

definition executeWithRetries ::
  "DocumentStore \<Rightarrow> operation \<Rightarrow> event list \<Rightarrow> go_error option \<times> event list" where
  "executeWithRetries store operation log =
     executeWithRetries_loop store operation NUMBER_OF_RETRIES None log"

text \<open>
  \<open>executeWithRetriesMaintenanceOperations\<close>: the same loop on the store's own
  database, with no test of the error's class.
\<close>

fun executeWithRetriesMaintenanceOperations_loop ::
  "DocumentStore \<Rightarrow> operation \<Rightarrow> nat \<Rightarrow> go_error option \<Rightarrow> event list
   \<Rightarrow> go_error option \<times> event list" where
  "executeWithRetriesMaintenanceOperations_loop store operation 0 err log = (err, log)"
| "executeWithRetriesMaintenanceOperations_loop store operation (Suc n) err log =
     (case answers (store_cluster store) log
             (MaintenanceSend (store_Database store) operation) of
        None \<Rightarrow> (None, log @ [MaintenanceSend (store_Database store) operation])
      | Some e \<Rightarrow>
          executeWithRetriesMaintenanceOperations_loop store operation n (Some e)
            (log @ [MaintenanceSend (store_Database store) operation, Sleep 5]))"

definition executeWithRetriesMaintenanceOperations ::
  "DocumentStore \<Rightarrow> operation \<Rightarrow> event list \<Rightarrow> go_error option \<times> event list" where
  "executeWithRetriesMaintenanceOperations store operation log =
     executeWithRetriesMaintenanceOperations_loop store operation NUMBER_OF_RETRIES None log"

text \<open>Clusters for the examples: one that accepts everything, and scripted ones.\<close>

definition empty_topology :: ClusterTopology where
  "empty_topology = \<lparr>TopologyID = ''t1'', topology_Members = [], CurrentState = ''Leader''\<rparr>"

definition no_leader :: go_error where
  "no_leader = GoError NoLeaderError ''no leader''"

definition calm_cluster :: cluster where
  "calm_cluster =
     \<lparr>open_error = (\<lambda>h. None), answers = (\<lambda>log ev. None),
      cluster_topology = (\<lambda>log. empty_topology), database_nodes = (\<lambda>log db. None)\<rparr>"

text \<open>A cluster without a leader for its first three requests.\<close>

definition electing_cluster :: cluster where
  "electing_cluster =
     calm_cluster\<lparr>answers := (\<lambda>log ev. if length log < 6 then Some no_leader else None)\<rparr>"

text \<open>A cluster on which the database of the store does not exist.\<close>

definition missing_database :: go_error where
  "missing_database = GoError DatabaseDoesNotExistError ''database does not exist''"

definition bare_cluster :: cluster where
  "bare_cluster =
     calm_cluster\<lparr>answers := (\<lambda>log ev.
        case ev of MaintenanceSend db operation \<Rightarrow> Some missing_database | _ \<Rightarrow> None)\<rparr>"

definition store_on :: "cluster \<Rightarrow> DocumentStore" where
  "store_on cl = \<lparr>store_Database = ''health'', store_cluster = cl\<rparr>"

text \<open>
  The history after \<open>k\<close> failed attempts of request \<open>ev\<close>, each followed by the pause of
  five seconds.
\<close>

definition retry_log :: "event list \<Rightarrow> event \<Rightarrow> nat \<Rightarrow> event list" where
  "retry_log log ev k = log @ concat (replicate k [ev, Sleep 5])"

subsection \<open>Cluster topology, health probe, database creation\<close>

text \<open>
  \<open>getClusterTopology\<close>: on success the operation holds the topology the cluster filled
  in, read here from the history that ends with the successful request.
\<close>

definition getClusterTopology ::
  "DocumentStore \<Rightarrow> event list \<Rightarrow> (go_error + ClusterTopology) \<times> event list" where
  "getClusterTopology store log =
     (case executeWithRetries store OperationGetClusterTopology log of
        (Some e, log') \<Rightarrow> (Inl e, log')
      | (None, log') \<Rightarrow> (Inr (cluster_topology (store_cluster store) log'), log'))"

definition getDatabaseHealthCheck ::
  "DocumentStore \<Rightarrow> event list \<Rightarrow> go_error option \<times> event list" where
  "getDatabaseHealthCheck store log =
     executeWithRetriesMaintenanceOperations store OperationDatabaseHealthCheck log"

text \<open>
  The first loop of \<open>createDatabase\<close>: up to \<open>NUMBER_OF_RETRIES\<close> reads of the cluster
  topology, pausing while the number of members differs from the number of declared URLs.
\<close>

fun createDatabase_wait ::
  "DocumentStore \<Rightarrow> ServerConfig \<Rightarrow> nat \<Rightarrow> event list \<Rightarrow> go_error option \<times> event list" where
  "createDatabase_wait store sc 0 log = (None, log)"
| "createDatabase_wait store sc (Suc n) log =
     (case getClusterTopology store log of
        (Inl e, log') \<Rightarrow> (Some e, log')
      | (Inr topology, log') \<Rightarrow>
          if length (topology_Members topology) \<noteq> length (Url_List sc)
          then createDatabase_wait store sc n (log' @ [Sleep 5])
          else (None, log'))"

definition createDatabase ::
  "DocumentStore \<Rightarrow> ServerConfig \<Rightarrow> DatabaseRecord \<Rightarrow> nat \<Rightarrow> event list
   \<Rightarrow> go_error option \<times> event list" where
  "createDatabase store sc dbRecord repFactor log =
     (case createDatabase_wait store sc NUMBER_OF_RETRIES log of
        (Some e, log') \<Rightarrow> (Some e, log')
      | (None, log') \<Rightarrow>
          (case executeWithRetries store (CreateDatabaseOperation dbRecord repFactor) log' of
             (None, log'') \<Rightarrow> (None, log'')
           | (Some err, log'') \<Rightarrow>
               if strings_Contains (err_text err) ''already exists!'' then (Some err, log'')
               else if err_kind err \<noteq> ConcurrencyError then (Some err, log'')
               else (None, log'')))"

subsection \<open>The modify fallback\<close>

text \<open>
  \<open>contains\<close> compares upper-cased strings and returns the first matching index, or
  \<open>(false, -1)\<close>.
\<close>

fun contains_from ::
  "go_strings \<Rightarrow> string list \<Rightarrow> string \<Rightarrow> int \<Rightarrow> bool \<times> int" where
  "contains_from lib [] str i = (False, - 1)"
| "contains_from lib (v # s) str i =
     (if strings_ToUpper lib v = strings_ToUpper lib str then (True, i)
      else contains_from lib s str (i + 1))"

definition contains :: "go_strings \<Rightarrow> string list \<Rightarrow> string \<Rightarrow> bool \<times> int" where
  "contains lib s str = contains_from lib s str 0"

text \<open>
  The loop of \<open>modifyDatabase\<close> over the live nodes' cluster tags: a tag that
  \<open>members\<close> does not contain is appended to \<open>rmDbInTags\<close>; otherwise the matching
  element is cut out of \<open>members\<close> (\<open>append(members[:index], members[index+1:]...)\<close>).
  The cut also shifts the elements of the shared backing array of the desired list; no
  function modelled here reads that list again.
\<close>

fun member_delta ::
  "go_strings \<Rightarrow> string list \<Rightarrow> string list \<Rightarrow> string list \<Rightarrow> string list \<times> string list" where
  "member_delta lib [] rmDbInTags members = (rmDbInTags, members)"
| "member_delta lib (tag # nodes) rmDbInTags members =
     (case contains lib members tag of
        (found, index) \<Rightarrow>
          if found = False then member_delta lib nodes (rmDbInTags @ [tag]) members
          else member_delta lib nodes rmDbInTags
                 (take (nat index) members @ drop (nat index + 1) members))"

fun addDatabaseNode ::
  "DocumentStore \<Rightarrow> string \<Rightarrow> string list \<Rightarrow> event list \<Rightarrow> go_error option \<times> event list" where
  "addDatabaseNode store databaseName [] log = (None, log)"
| "addDatabaseNode store databaseName (node # nodes) log =
     (case executeWithRetries store (OperationAddDatabaseNode databaseName node) log of
        (Some e, log') \<Rightarrow> (Some e, log')
      | (None, log') \<Rightarrow> addDatabaseNode store databaseName nodes log')"

text \<open>
  \<open>modifyDatabase\<close>. The error of the topology command is dropped by the source; only a
  \<open>nil\<close> result is fatal. A record without a topology would be a \<open>nil\<close> dereference.
  The source cuts the matched element out of \<open>members\<close> in place, on the array that the
  record's member list shares; the fallback reads that list through \<open>members\<close> only, so
  the cut is a cut of the list here.
\<close>

definition modifyDatabase ::
  "go_strings \<Rightarrow> DocumentStore \<Rightarrow> DatabaseRecord \<Rightarrow> event list \<Rightarrow> failure option \<times> event list" where
  "modifyDatabase lib store dbRecord log =
     (let name = rec_DatabaseName dbRecord;
          log1 = log @ [GetDatabaseTopologyCommand name]
      in case database_nodes (store_cluster store) log name of
           None \<Rightarrow>
             (Some (Err (errors_New (''Unable to retrieve topology for database: '' @ name))),
              log1)
         | Some nodes \<Rightarrow>
             (case rec_DatabaseTopology dbRecord of
                None \<Rightarrow> (Some (Panic ''nil pointer dereference''), log1)
              | Some topology \<Rightarrow>
                  (case member_delta lib nodes [] (Members topology) of
                     (rmDbInTags, members) \<Rightarrow>
                       (case (if rmDbInTags \<noteq> []
                              then executeWithRetries store
                                     (DeleteDatabasesOperationWithParameters [name] True rmDbInTags)
                                     log1
                              else (None, log1)) of
                          (Some e, log2) \<Rightarrow> (Some (Err e), log2)
                        | (None, log2) \<Rightarrow>
                            (case addDatabaseNode store name members log2 of
                               (Some e, log3) \<Rightarrow> (Some (Err e), log3)
                             | (None, log3) \<Rightarrow> (None, log3))))))"

subsection \<open>Creating the declared databases\<close>

definition distributeSecretKey ::
  "DocumentStore \<Rightarrow> Database \<Rightarrow> event list \<Rightarrow> go_error option \<times> event list" where
  "distributeSecretKey store database log =
     executeWithRetries store
       (OperationDistributeSecretKey (db_Name database) (ReplicationNodes database) (Key database))
       log"

definition databaseRecord_of :: "Database \<Rightarrow> DatabaseRecord" where
  "databaseRecord_of database =
     \<lparr>rec_DatabaseName = db_Name database,
      rec_Settings = db_Settings database,
      Encrypted = True,
      rec_DatabaseTopology =
        Some \<lparr>Members = ReplicationNodes database,
              ReplicationFactor = length (ReplicationNodes database),
              DynamicNodesDistribution = False\<rparr>\<rparr>"

fun distribute_keys ::
  "go_strings \<Rightarrow> DocumentStore \<Rightarrow> Database list \<Rightarrow> event list \<Rightarrow> go_error option \<times> event list" where
  "distribute_keys lib store [] log = (None, log)"
| "distribute_keys lib store (database # rest) log =
     (if length (strings_TrimSpace lib (Key database)) > 0
      then (case distributeSecretKey store database log of
              (Some e, log') \<Rightarrow> (Some e, log')
            | (None, log') \<Rightarrow> distribute_keys lib store rest log')
      else distribute_keys lib store rest log)"

text \<open>
  The third loop of \<open>createDatabases\<close>, over the databases and their records. In both
  branches the \<open>else\<close> of the already-exists test returns \<open>err\<close>, also when it is
  \<open>nil\<close>; the branch for a database with a key first calls \<open>err.Error()\<close>, which on a
  \<open>nil\<close> error is a \<open>nil\<close> dereference.
\<close>

fun create_loop ::
  "go_strings \<Rightarrow> DocumentStore \<Rightarrow> ServerConfig \<Rightarrow> (Database \<times> DatabaseRecord) list \<Rightarrow> event list
   \<Rightarrow> failure option \<times> event list" where
  "create_loop lib store sc [] log = (None, log)"
| "create_loop lib store sc ((database, databaseRecord) # rest) log =
     (if length (strings_TrimSpace lib (Key database)) > 0
      then (case createDatabase store sc databaseRecord 0 log of
              (Some err, log1) \<Rightarrow>
                if strings_Contains (err_text err) ''already exists!''
                then (case modifyDatabase lib store databaseRecord log1 of
                        (Some f, log2) \<Rightarrow> (Some f, log2)
                      | (None, log2) \<Rightarrow> create_loop lib store sc rest log2)
                else (Some (Err err), log1)
            | (None, log1) \<Rightarrow> (Some (Panic ''nil pointer dereference''), log1))
      else (case createDatabase store sc (databaseRecord\<lparr>Encrypted := False\<rparr>) 0 log of
              (Some err, log1) \<Rightarrow>
                if strings_Contains (err_text err) ''already exists!''
                then (case modifyDatabase lib store (databaseRecord\<lparr>Encrypted := False\<rparr>) log1 of
                        (Some f, log2) \<Rightarrow> (Some f, log2)
                      | (None, log2) \<Rightarrow> create_loop lib store sc rest log2)
                else (Some (Err err), log1)
            | (None, log1) \<Rightarrow> (None, log1)))"

definition createDatabases ::
  "go_strings \<Rightarrow> DocumentStore \<Rightarrow> ServerConfig \<Rightarrow> event list \<Rightarrow> failure option \<times> event list" where
  "createDatabases lib store sc log =
     (let databaseRecords = map databaseRecord_of (Databases sc)
      in case distribute_keys lib store (Databases sc) log of
           (Some e, log') \<Rightarrow> (Some (Err e), log')
         | (None, log') \<Rightarrow> create_loop lib store sc (zip (Databases sc) databaseRecords) log')"

subsection \<open>Deleting databases and indexes, creating indexes\<close>

definition deleteDatabase ::
  "DocumentStore \<Rightarrow> DatabaseToDelete \<Rightarrow> event list \<Rightarrow> go_error option \<times> event list" where
  "deleteDatabase store database log =
     (let ev = ServerSend (DeleteDatabasesOperation (dd_Name database) (HardDelete database))
      in (answers (store_cluster store) log ev, log @ [ev]))"

fun deleteDatabases_loop ::
  "DocumentStore \<Rightarrow> DatabaseToDelete list \<Rightarrow> event list \<Rightarrow> go_error option \<times> event list" where
  "deleteDatabases_loop store [] log = (None, log)"
| "deleteDatabases_loop store (db # rest) log =
     (case deleteDatabase store db log of
        (Some e, log') \<Rightarrow> (Some e, log')
      | (None, log') \<Rightarrow> deleteDatabases_loop store rest log')"

definition deleteDatabases ::
  "DocumentStore \<Rightarrow> ServerConfig \<Rightarrow> event list \<Rightarrow> go_error option \<times> event list" where
  "deleteDatabases store sc log = deleteDatabases_loop store (DatabasesToDelete sc) log"

fun deleteIndexes_names ::
  "DocumentStore \<Rightarrow> string \<Rightarrow> string list \<Rightarrow> event list \<Rightarrow> go_error option \<times> event list" where
  "deleteIndexes_names store databaseName [] log = (None, log)"
| "deleteIndexes_names store databaseName (indexName # rest) log =
     (let ev = MaintenanceSend databaseName (DeleteIndexOperation indexName)
      in case answers (store_cluster store) log ev of
           Some e \<Rightarrow> (Some e, log @ [ev])
         | None \<Rightarrow> deleteIndexes_names store databaseName rest (log @ [ev]))"

fun deleteIndexes_loop ::
  "DocumentStore \<Rightarrow> IndexesToDelete list \<Rightarrow> event list \<Rightarrow> go_error option \<times> event list" where
  "deleteIndexes_loop store [] log = (None, log)"
| "deleteIndexes_loop store (indexStruct # rest) log =
     (case deleteIndexes_names store (DatabaseName indexStruct) (IndexesNames indexStruct) log of
        (Some e, log') \<Rightarrow> (Some e, log')
      | (None, log') \<Rightarrow> deleteIndexes_loop store rest log')"

definition deleteIndexes ::
  "DocumentStore \<Rightarrow> ServerConfig \<Rightarrow> event list \<Rightarrow> go_error option \<times> event list" where
  "deleteIndexes store sc log = deleteIndexes_loop store (IndexesToDelete sc) log"

text \<open>
  \<open>createIndexes\<close> makes one index definition before its loops and updates it for every
  index: the name, reduce function and configuration are replaced, the maps are appended
  to those already there. The event holds the definition as it is when sent.
\<close>

definition NewIndexDefinition :: IndexDefinition where
  "NewIndexDefinition =
     \<lparr>def_Name = [], def_Maps = [], def_Reduce = None, def_Configuration = Map.empty\<rparr>"

fun createIndexes_indexes ::
  "DocumentStore \<Rightarrow> string \<Rightarrow> Index list \<Rightarrow> IndexDefinition \<Rightarrow> event list
   \<Rightarrow> (go_error option \<times> IndexDefinition) \<times> event list" where
  "createIndexes_indexes store databaseName [] indexDefinition log =
     ((None, indexDefinition), log)"
| "createIndexes_indexes store databaseName (idx # rest) indexDefinition log =
     (let indexDefinition' =
            indexDefinition\<lparr>def_Name := IndexName idx,
                            def_Maps := def_Maps indexDefinition @ Maps idx,
                            def_Reduce := Some (Reduce idx),
                            def_Configuration := Configuration idx\<rparr>;
          ev = MaintenanceSend databaseName (PutIndexesOperation indexDefinition')
      in case answers (store_cluster store) log ev of
           Some e \<Rightarrow> ((Some e, indexDefinition'), log @ [ev])
         | None \<Rightarrow> createIndexes_indexes store databaseName rest indexDefinition' (log @ [ev]))"

fun createIndexes_loop ::
  "DocumentStore \<Rightarrow> Database list \<Rightarrow> IndexDefinition \<Rightarrow> event list
   \<Rightarrow> go_error option \<times> event list" where
  "createIndexes_loop store [] indexDefinition log = (None, log)"
| "createIndexes_loop store (database # rest) indexDefinition log =
     (case createIndexes_indexes store (db_Name database) (Indexes database) indexDefinition log of
        ((Some e, indexDefinition'), log') \<Rightarrow> (Some e, log')
      | ((None, indexDefinition'), log') \<Rightarrow> createIndexes_loop store rest indexDefinition' log')"

definition createIndexes ::
  "DocumentStore \<Rightarrow> ServerConfig \<Rightarrow> event list \<Rightarrow> go_error option \<times> event list" where
  "createIndexes store sc log = createIndexes_loop store (Databases sc) NewIndexDefinition log"

subsection \<open>Deploy\<close>

text \<open>
  The health check of \<open>Deploy\<close>: the probe, and the creation of the healthcheck database
  when the probe's error is of the database-does-not-exist class.
\<close>

definition healthcheck_record :: "ServerConfig \<Rightarrow> DatabaseRecord" where
  "healthcheck_record sc =
     \<lparr>rec_DatabaseName = HealthcheckDatabase sc, rec_Settings = Map.empty,
      Encrypted = False, rec_DatabaseTopology = None\<rparr>"

definition Deploy_healthcheck ::
  "DocumentStore \<Rightarrow> ServerConfig \<Rightarrow> event list \<Rightarrow> go_error option \<times> event list" where
  "Deploy_healthcheck store sc log =
     (case getDatabaseHealthCheck store log of
        (None, log') \<Rightarrow> (None, log')
      | (Some err, log') \<Rightarrow>
          if err_kind err = DatabaseDoesNotExistError
          then createDatabase store sc (healthcheck_record sc) (length (Hosts sc)) log'
          else (Some err, log'))"

text \<open>
  \<open>Deploy\<close>, from an empty history. The shared bundle is dereferenced without a test, so
  its absence is a \<open>nil\<close> dereference. The parameter \<open>parallel\<close> (here \<open>parallel'\<close>) is not used by the
  source (the call that deploys the hosts is commented out).
\<close>

definition Deploy ::
  "go_strings \<Rightarrow> cluster \<Rightarrow> ServerConfig \<Rightarrow> bool \<Rightarrow> (failure + string) \<times> event list" where
  "Deploy lib cl sc parallel' =
     (case ClusterSetupZip sc CREDENTIALS_FOR_SECURE_STORE_FIELD_NAME of
        None \<Rightarrow> (Inl (Panic ''nil pointer dereference''), [])
      | Some holder \<Rightarrow>
     (case getStore lib cl sc holder of
        Inl e \<Rightarrow> (Inl (Err e), [])
      | Inr store \<Rightarrow>
     (case getClusterTopology store [] of
        (Inl e, log1) \<Rightarrow> (Inl (Err e), log1)
      | (Inr clusterTopology, log1) \<Rightarrow>
     (case Deploy_healthcheck store sc log1 of
        (Some e, log2) \<Rightarrow> (Inl (Err e), log2)
      | (None, log2) \<Rightarrow>
     (case deleteDatabases store sc log2 of
        (Some e, log3) \<Rightarrow> (Inl (Err e), log3)
      | (None, log3) \<Rightarrow>
     (case createDatabases lib store sc log3 of
        (Some f, log4) \<Rightarrow> (Inl f, log4)
      | (None, log4) \<Rightarrow>
     (case deleteIndexes store sc log4 of
        (Some e, log5) \<Rightarrow> (Inl (Err e), log5)
      | (None, log5) \<Rightarrow>
     (case createIndexes store sc log5 of
        (Some e, log6) \<Rightarrow> (Inl (Err e), log6)
      | (None, log6) \<Rightarrow> (Inr (TopologyID clusterTopology), log6)))))))))"

subsection \<open>The member delta in words\<close>

text \<open>
  Tags are compared as \<open>contains\<close> compares them, in upper case. \<open>excess\<close> are the
  live tags that are not desired, \<open>missing\<close> the desired tags that are not live, each in
  the order of its list. Below them, clusters and records for the examples.
\<close>

definition same_tag :: "go_strings \<Rightarrow> string \<Rightarrow> string \<Rightarrow> bool" where
  "same_tag lib a b = (strings_ToUpper lib a = strings_ToUpper lib b)"

definition tag_in :: "go_strings \<Rightarrow> string \<Rightarrow> string list \<Rightarrow> bool" where
  "tag_in lib t ts = list_ex (same_tag lib t) ts"


definition missing :: "go_strings \<Rightarrow> string list \<Rightarrow> string list \<Rightarrow> string list" where
  "missing lib live desired = filter (\<lambda>m. \<not> tag_in lib m live) desired"





subsection \<open>Phases of a run\<close>

text \<open>
  The phase a request belongs to, in the order of \<open>Deploy\<close>: 0 for the health check
  (the probe and the creation of the healthcheck database, whose record has no
  topology), 1 for the deletion of a declared-to-delete database, 2 for the creation or
  modification of a declared database (key distribution, creation with a topology,
  topology command, removal from nodes, addition of a node), 3 for the deletion of an
  index, 4 for the creation of an index. Reads of the cluster topology and pauses occur
  in several phases and are not \<open>phased\<close>.
\<close>

fun phased :: "event \<Rightarrow> bool" where
  "phased (Sleep n) = False"
| "phased (ServerSend OperationGetClusterTopology) = False"
| "phased ev = True"

fun phase :: "event \<Rightarrow> nat" where
  "phase (MaintenanceSend db OperationDatabaseHealthCheck) = 0"
| "phase (ServerSend (CreateDatabaseOperation dbRecord repFactor)) =
     (if rec_DatabaseTopology dbRecord = None then 0 else 2)"
| "phase (ServerSend (DeleteDatabasesOperation name hardDelete)) = 1"
| "phase (ServerSend (OperationDistributeSecretKey name nodes k)) = 2"
| "phase (GetDatabaseTopologyCommand name) = 2"
| "phase (ServerSend (DeleteDatabasesOperationWithParameters names hardDelete fromNodes)) = 2"
| "phase (ServerSend (OperationAddDatabaseNode name node)) = 2"
| "phase (MaintenanceSend db (DeleteIndexOperation name)) = 3"
| "phase (MaintenanceSend db (PutIndexesOperation indexDefinition)) = 4"
| "phase ev = 0"

text \<open>The health probe.\<close>

fun is_probe :: "event \<Rightarrow> bool" where
  "is_probe (MaintenanceSend db OperationDatabaseHealthCheck) = True"
| "is_probe ev = False"

text \<open>
  \<open>emits res log P\<close>: the history of result \<open>res\<close> extends \<open>log\<close> by events that all
  satisfy \<open>P\<close>. \<open>ordered_upto r log\<close>: the phased events of \<open>log\<close> are in phase order and
  none is beyond phase \<open>r\<close>.
\<close>

definition emits :: "'r \<times> event list \<Rightarrow> event list \<Rightarrow> (event \<Rightarrow> bool) \<Rightarrow> bool" where
  "emits res log P = (\<exists>evs. snd res = log @ evs \<and> list_all P evs)"

definition ordered_upto :: "nat \<Rightarrow> event list \<Rightarrow> bool" where
  "ordered_upto r log =
     (sorted (map phase (filter phased log)) \<and> list_all (\<lambda>e. \<not> phased e \<or> phase e \<le> r) log)"

text \<open>
  Two orders to test a history against: no deletion of a declared-to-delete database or
  index after a create or modify call for a declared database or an index; and whether
  a probe follows the creation of a database of a given name.
\<close>

fun is_declared_delete :: "event \<Rightarrow> bool" where
  "is_declared_delete (ServerSend (DeleteDatabasesOperation name hardDelete)) = True"
| "is_declared_delete (MaintenanceSend db (DeleteIndexOperation name)) = True"
| "is_declared_delete ev = False"

fun is_create :: "event \<Rightarrow> bool" where
  "is_create (ServerSend (CreateDatabaseOperation dbRecord repFactor)) =
     (rec_DatabaseTopology dbRecord \<noteq> None)"
| "is_create (ServerSend (DeleteDatabasesOperationWithParameters names hardDelete fromNodes)) = True"
| "is_create (ServerSend (OperationAddDatabaseNode name node)) = True"
| "is_create (MaintenanceSend db (PutIndexesOperation indexDefinition)) = True"
| "is_create ev = False"

fun deletes_before_creates :: "event list \<Rightarrow> bool" where
  "deletes_before_creates [] = True"
| "deletes_before_creates (e # es) =
     ((\<not> is_create e \<or> \<not> list_ex is_declared_delete es) \<and> deletes_before_creates es)"

fun probe_after_create :: "string \<Rightarrow> event list \<Rightarrow> bool" where
  "probe_after_create db [] = False"
| "probe_after_create db (e # es) =
     ((case e of
         ServerSend (CreateDatabaseOperation dbRecord repFactor) \<Rightarrow>
           rec_DatabaseName dbRecord = db \<and> list_ex is_probe es
       | _ \<Rightarrow> False)
      \<or> probe_after_create db es)"

text \<open>Configurations and clusters for the examples.\<close>

definition shared_bundle :: CertificateHolder where
  "shared_bundle = \<lparr>Pfx = [], Cert = [], Key_bytes = [], SettingsJson = [], License = []\<rparr>"

definition by_day :: Index where
  "by_day = \<lparr>IndexName = ''ByDay'', Maps = [''map''], Reduce = [], Configuration = Map.empty\<rparr>"

definition orders_db :: Database where
  "orders_db = \<lparr>db_Name = ''orders'', db_Settings = Map.empty, ReplicationNodes = [''A''],
                Key = [], Indexes = [by_day]\<rparr>"

definition recreate_config :: ServerConfig where
  "recreate_config =
     \<lparr>Hosts = [''10.0.0.5'', ''10.0.0.6'', ''10.0.0.7''],
      ClusterSetupZip = [''store'' \<mapsto> shared_bundle],
      Url_List = [], Unsecured = False, sc_SSH = ssh_default,
      HealthcheckDatabase = ''health'',
      Databases = [orders_db],
      DatabasesToDelete = [\<lparr>dd_Name = ''orders'', HardDelete = True\<rparr>],
      IndexesToDelete = [\<lparr>DatabaseName = ''orders'', IndexesNames = [''ByDay'']\<rparr>]\<rparr>"

definition timeout_error :: go_error where
  "timeout_error = GoError PlainError ''timeout''"

definition broken_cluster :: cluster where
  "broken_cluster =
     calm_cluster\<lparr>answers := (\<lambda>log ev.
        case ev of MaintenanceSend db operation \<Rightarrow> Some timeout_error | _ \<Rightarrow> None)\<rparr>"

text \<open>
  A cluster on which the healthcheck database does not exist: it answers the health probe
  with the database-does-not-exist error and accepts everything else.
\<close>

definition unprobed_cluster :: cluster where
  "unprobed_cluster =
     calm_cluster\<lparr>answers := (\<lambda>log ev.
        case ev of MaintenanceSend db OperationDatabaseHealthCheck \<Rightarrow> Some missing_database
                 | _ \<Rightarrow> None)\<rparr>"

definition health_config :: ServerConfig where
  "health_config = recreate_config\<lparr>Databases := [], DatabasesToDelete := [], IndexesToDelete := []\<rparr>"

section \<open>Reading the state of the fleet (readRavenDbInstances)\<close>

record NodeState =
  Host :: string
  ns_Settings :: "string \<rightharpoonup> string"
  ns_ClusterSetupZip :: "string \<rightharpoonup> CertificateHolder"
  ns_Assets :: "string \<rightharpoonup> string"
  ns_Unsecured :: bool
  Version :: string
  Failed :: bool
  ns_Databases :: "Database list"
  ns_DatabasesToDelete :: "DatabaseToDelete list"
  ns_IndexesToDelete :: "IndexesToDelete list"
  Licence :: string

text \<open>The zero value of the structure, as \<open>var ns NodeState\<close> and \<open>make\<close> give it.\<close>

definition zero_NodeState :: NodeState where
  "zero_NodeState =
     \<lparr>Host = [], ns_Settings = Map.empty, ns_ClusterSetupZip = Map.empty,
      ns_Assets = Map.empty, ns_Unsecured = False, Version = [], Failed = False,
      ns_Databases = [], ns_DatabasesToDelete = [], ns_IndexesToDelete = [], Licence = []\<rparr>"

text \<open>
  The hosts behind the remote shell: whether the private key parses, what a dial to a
  host answers in each iteration of the connection loop (a connection is a number here),
  the result of the commands that install the package on a host, and what \<open>ReadServer\<close>
  gathers from a host once it is connected (its files, settings, version and the
  declared lists), with the error that may end it.
\<close>

record remote =
  ssh_ParsePrivateKey :: "string \<Rightarrow> go_error option"
  ssh_Dial :: "string \<Rightarrow> nat \<Rightarrow> go_error + nat"
  run_install :: "string \<Rightarrow> go_error option"
  read_node :: "string \<Rightarrow> nat \<Rightarrow> NodeState \<times> go_error option"

text \<open>
  \<open>ReadServer\<close> as far as the connection: a key that does not parse or a host that
  cannot be connected returns the zero node state with the error.
\<close>

definition ReadServer :: "remote \<Rightarrow> ServerConfig \<Rightarrow> string \<Rightarrow> nat \<Rightarrow> NodeState \<times> go_error option" where
  "ReadServer env sc publicIP index =
     (case ssh_ParsePrivateKey env (Pem (sc_SSH sc)) of
        Some err \<Rightarrow> (zero_NodeState, Some err)
      | None \<Rightarrow>
          (case fst (ConnectToRemoteWithRetry (ssh_Dial env publicIP) (sc_SSH sc) publicIP None) of
             Inl err \<Rightarrow> (zero_NodeState, Some err)
           | Inr conn \<Rightarrow> read_node env publicIP index))"

text \<open>
  The tasks of \<open>readRavenDbInstances\<close>, one per host, run here one after the other in
  the order of the hosts, each to its end. A task whose error contains the marker sets
  \<open>Failed\<close> in its own copy of the node state and returns; every other task stores its
  node state at its index, after sending its error, if any, to the channel.
\<close>

fun read_hosts ::
  "remote \<Rightarrow> ServerConfig \<Rightarrow> (string \<times> nat) list \<Rightarrow> NodeState list \<times> go_error list
   \<Rightarrow> NodeState list \<times> go_error list" where
  "read_hosts env sc [] st = st"
| "read_hosts env sc ((copyOfPublicIp, copyOfIndex) # rest) (nodeStateArray, errorsChanel) =
     (case ReadServer env sc copyOfPublicIp copyOfIndex of
        (nodeState, None) \<Rightarrow>
          read_hosts env sc rest (nodeStateArray[copyOfIndex := nodeState], errorsChanel)
      | (nodeState, Some err) \<Rightarrow>
          if strings_Contains (err_text err) ''Unable to SSH to''
          then (let nodeState' = nodeState\<lparr>Failed := True\<rparr>
                in read_hosts env sc rest (nodeStateArray, errorsChanel))
          else read_hosts env sc rest
                 (nodeStateArray[copyOfIndex := nodeState], errorsChanel @ [err]))"

text \<open>The result: the collected errors as one multi-error, or the array of node states.\<close>

definition readRavenDbInstances :: "remote \<Rightarrow> ServerConfig \<Rightarrow> go_error list + NodeState list" where
  "readRavenDbInstances env sc =
     (case read_hosts env sc (zip (Hosts sc) [0 ..< length (Hosts sc)])
             (replicate (length (Hosts sc)) zero_NodeState, []) of
        (nodeStateArray, errorsChanel) \<Rightarrow>
          if length errorsChanel > 0 then Inl errorsChanel else Inr nodeStateArray)"

text \<open>A fleet of three hosts of which the second refuses every dial.\<close>

definition node_of :: "string \<Rightarrow> NodeState" where
  "node_of ip = zero_NodeState\<lparr>Host := ip, Version := ''60000''\<rparr>"

definition fleet :: remote where
  "fleet =
     \<lparr>ssh_ParsePrivateKey = (\<lambda>pem. None),
      ssh_Dial = (\<lambda>ip i. if ip = ''10.0.0.6'' then Inl (errors_New ''connection refused'')
                          else Inr 1),
      run_install = (\<lambda>ip. None),
      read_node = (\<lambda>ip index. (node_of ip, None))\<rparr>"

section \<open>Per-host deployment: the effective settings (deployServer)\<close>

text \<open>
  A Go map is \<open>nil\<close> until it is made: \<open>None\<close> is the \<open>nil\<close> map, \<open>Some m\<close> a made one.
  Reading a \<open>nil\<close> map is allowed; assigning to an entry of it panics.
\<close>

type_synonym 'v go_map = "(string \<rightharpoonup> 'v) option"

definition map_assign :: "'v go_map \<Rightarrow> string \<Rightarrow> 'v \<Rightarrow> failure + 'v go_map" where
  "map_assign m k v =
     (case m of
        None \<Rightarrow> Inl (Panic ''assignment to entry in nil map'')
      | Some f \<Rightarrow> Inr (Some (f(k \<mapsto> v))))"

text \<open>
  \<open>deployServer\<close> up to the choice of the scheme. \<open>settings\<close> is declared with
  \<open>var settings map[string]interface{}\<close> and nothing makes it before the test of
  \<open>Unsecured\<close>. What follows the choice (the URLs, the settings of the archive, the
  uploads, the DNS check and the restart) is the parameter \<open>continue\<close>, which receives
  the settings map and the scheme.
\<close>

definition deployServer ::
  "remote \<Rightarrow> (string go_map \<Rightarrow> string \<Rightarrow> failure option) \<Rightarrow> ServerConfig \<Rightarrow> string \<Rightarrow> nat
   \<Rightarrow> failure option" where
  "deployServer env continue sc publicIP index =
     (let settings = (None :: string go_map)
      in case ssh_ParsePrivateKey env (Pem (sc_SSH sc)) of
           Some err \<Rightarrow> Some (Err err)
         | None \<Rightarrow>
        (case fst (ConnectToRemoteWithRetry (ssh_Dial env publicIP) (sc_SSH sc) publicIP None) of
           Inl err \<Rightarrow> Some (Err err)
         | Inr conn \<Rightarrow>
        (case run_install env publicIP of
           Some err \<Rightarrow> Some (Err err)
         | None \<Rightarrow>
        (case (if Unsecured sc
               then (case map_assign settings ''Security.UnsecuredAccessAllowed'' ''PublicNetwork'' of
                       Inl p \<Rightarrow> Inl p
                     | Inr settings' \<Rightarrow> Inr (settings', ''http''))
               else Inr (settings, ''https'')) of
           Inl p \<Rightarrow> Some p
         | Inr (settings', scheme) \<Rightarrow> continue settings' scheme))))"

definition unsecured_config :: ServerConfig where
  "unsecured_config =
     \<lparr>Hosts = [''10.0.0.5''], ClusterSetupZip = Map.empty, Url_List = [],
      Unsecured = True, sc_SSH = ssh_default, HealthcheckDatabase = [],
      Databases = [], DatabasesToDelete = [], IndexesToDelete = []\<rparr>"

section \<open>Extraction of the setup archive (OpenZipFile)\<close>

text \<open>
  \<open>strings.Split\<close> on the one-character separator, and \<open>filepath.Ext\<close>: the suffix from
  the last dot of the last path element, empty when that element has no dot.
\<close>

fun split_char :: "char \<Rightarrow> string \<Rightarrow> string list" where
  "split_char c [] = [[]]"
| "split_char c (x # xs) =
     (if x = c then [] # split_char c xs
      else (case split_char c xs of
              [] \<Rightarrow> [[x]]
            | r # rs \<Rightarrow> (x # r) # rs))"

fun ext_scan :: "string \<Rightarrow> string \<Rightarrow> string" where
  "ext_scan [] acc = []"
| "ext_scan (c # rest) acc =
     (if c = CHR ''/'' then []
      else if c = CHR ''.'' then c # acc
      else ext_scan rest (c # acc))"

definition filepath_Ext :: "string \<Rightarrow> string" where
  "filepath_Ext path = ext_scan (rev path) []"

text \<open>
  An entry of the archive: its name, and its bytes or the error of opening or reading
  it. \<open>zip.OpenReader\<close> is a parameter of \<open>OpenZipFile\<close>.
\<close>

record zip_File =
  zf_Name :: string
  zf_bytes :: "go_error + string"

definition fresh_holder :: CertificateHolder where
  "fresh_holder = \<lparr>Pfx = [], Cert = [], Key_bytes = [], SettingsJson = [], License = []\<rparr>"

text \<open>
  \<open>extractFiles\<close> and \<open>OpenZipFile\<close> of the source file that classifies \<open>.json\<close>
  entries (the one the rest of the package compiles with): the holder of the bundle is
  updated in place, the field of the entry's class is assigned the entry's bytes.
\<close>

definition extractFiles :: "zip_File \<Rightarrow> CertificateHolder \<Rightarrow> go_error + CertificateHolder" where
  "extractFiles file certHolder =
     (case zf_bytes file of
        Inl err \<Rightarrow> Inl err
      | Inr bytes \<Rightarrow>
          (let fileExtension = filepath_Ext (zf_Name file)
           in Inr (if fileExtension = ''.pfx'' then certHolder\<lparr>Pfx := bytes\<rparr>
                   else if fileExtension = ''.crt'' then certHolder\<lparr>Cert := bytes\<rparr>
                   else if fileExtension = ''.key'' then certHolder\<lparr>Key_bytes := bytes\<rparr>
                   else if fileExtension = ''.json''
                        then (if zf_Name file = ''license.json''
                              then certHolder\<lparr>License := bytes\<rparr>
                              else certHolder\<lparr>SettingsJson := bytes\<rparr>)
                   else certHolder)))"

definition bundle_name :: "string \<Rightarrow> string" where
  "bundle_name fileName =
     (let split = split_char CHR ''/'' fileName
      in if length split = 1 then CREDENTIALS_FOR_SECURE_STORE_FIELD_NAME else hd split)"

fun OpenZipFile_loop ::
  "zip_File list \<Rightarrow> (string \<rightharpoonup> CertificateHolder)
   \<Rightarrow> go_error + (string \<rightharpoonup> CertificateHolder)" where
  "OpenZipFile_loop [] clusterSetupZip = Inr clusterSetupZip"
| "OpenZipFile_loop (file # files) clusterSetupZip =
     (let name = bundle_name (zf_Name file);
          holder = (case clusterSetupZip name of None \<Rightarrow> fresh_holder | Some h \<Rightarrow> h)
      in case extractFiles file holder of
           Inl err \<Rightarrow> Inl err
         | Inr holder' \<Rightarrow> OpenZipFile_loop files (clusterSetupZip(name \<mapsto> holder')))"

definition OpenZipFile ::
  "(string \<Rightarrow> go_error + zip_File list) \<Rightarrow> ServerConfig \<Rightarrow> string
   \<Rightarrow> go_error + (string \<rightharpoonup> CertificateHolder)" where
  "OpenZipFile zip_OpenReader sc path =
     (case zip_OpenReader path of
        Inl err \<Rightarrow> Inl err
      | Inr files \<Rightarrow> OpenZipFile_loop files Map.empty)"

text \<open>
  The other source file of the same name has an earlier form of the two functions:
  \<open>extractFiles\<close> returns a holder of its own with the \<open>.pfx\<close>, \<open>.crt\<close> or \<open>.key\<close>
  bytes and knows no \<open>.json\<close>; \<open>OpenZipFile\<close> appends the three fields to the bundle.
\<close>

definition extractFiles_earlier :: "zip_File \<Rightarrow> go_error + CertificateHolder" where
  "extractFiles_earlier file =
     (case zf_bytes file of
        Inl err \<Rightarrow> Inl err
      | Inr bytes \<Rightarrow>
          (let fileExtension = filepath_Ext (zf_Name file)
           in Inr (if fileExtension = ''.pfx'' then fresh_holder\<lparr>Pfx := bytes\<rparr>
                   else if fileExtension = ''.crt'' then fresh_holder\<lparr>Cert := bytes\<rparr>
                   else if fileExtension = ''.key'' then fresh_holder\<lparr>Key_bytes := bytes\<rparr>
                   else fresh_holder)))"

fun OpenZipFile_earlier_loop ::
  "zip_File list \<Rightarrow> (string \<rightharpoonup> CertificateHolder)
   \<Rightarrow> go_error + (string \<rightharpoonup> CertificateHolder)" where
  "OpenZipFile_earlier_loop [] clusterSetupZip = Inr clusterSetupZip"
| "OpenZipFile_earlier_loop (file # files) clusterSetupZip =
     (let name = bundle_name (zf_Name file);
          holder = (case clusterSetupZip name of None \<Rightarrow> fresh_holder | Some h \<Rightarrow> h)
      in case extractFiles_earlier file of
           Inl err \<Rightarrow> Inl err
         | Inr zipStruct \<Rightarrow>
             OpenZipFile_earlier_loop files
               (clusterSetupZip(name \<mapsto>
                  holder\<lparr>Pfx := Pfx holder @ Pfx zipStruct,
                         Cert := Cert holder @ Cert zipStruct,
                         Key_bytes := Key_bytes holder @ Key_bytes zipStruct\<rparr>)))"

definition OpenZipFile_earlier ::
  "(string \<Rightarrow> go_error + zip_File list) \<Rightarrow> ServerConfig \<Rightarrow> string
   \<Rightarrow> go_error + (string \<rightharpoonup> CertificateHolder)" where
  "OpenZipFile_earlier zip_OpenReader sc path =
     (case zip_OpenReader path of
        Inl err \<Rightarrow> Inl err
      | Inr files \<Rightarrow> OpenZipFile_earlier_loop files Map.empty)"

text \<open>
  The class of an entry, read off \<open>extractFiles\<close>, and the field of a holder that a class
  names.
\<close>

datatype holder_field = PfxField | CertField | KeyField | SettingsJsonField | LicenseField

definition entry_class :: "string \<Rightarrow> holder_field option" where
  "entry_class fileName =
     (let fileExtension = filepath_Ext fileName
      in if fileExtension = ''.pfx'' then Some PfxField
         else if fileExtension = ''.crt'' then Some CertField
         else if fileExtension = ''.key'' then Some KeyField
         else if fileExtension = ''.json''
              then (if fileName = ''license.json'' then Some LicenseField
                    else Some SettingsJsonField)
         else None)"

fun field_of :: "holder_field \<Rightarrow> CertificateHolder \<Rightarrow> string" where
  "field_of PfxField h = Pfx h"
| "field_of CertField h = Cert h"
| "field_of KeyField h = Key_bytes h"
| "field_of SettingsJsonField h = SettingsJson h"
| "field_of LicenseField h = License h"

text \<open>Archives for the examples.\<close>

definition setup_archive :: "zip_File list" where
  "setup_archive =
     [\<lparr>zf_Name = ''A/server.pfx'', zf_bytes = Inr ''pfx-bytes''\<rparr>,
      \<lparr>zf_Name = ''A/settings.json'', zf_bytes = Inr ''settings-bytes''\<rparr>,
      \<lparr>zf_Name = ''license.json'', zf_bytes = Inr ''license-bytes''\<rparr>]"

definition repeating_archive :: "zip_File list" where
  "repeating_archive =
     [\<lparr>zf_Name = ''A/first.pfx'', zf_bytes = Inr ''one''\<rparr>,
      \<lparr>zf_Name = ''A/second.pfx'', zf_bytes = Inr ''two''\<rparr>]"

text \<open>
  The bytes a result of the extraction holds in a field of a bundle, if the extraction
  succeeded and the bundle exists.
\<close>

definition extracted ::
  "go_error + (string \<rightharpoonup> CertificateHolder) \<Rightarrow> string \<Rightarrow> holder_field \<Rightarrow> string option" where
  "extracted res name fld =
     (case res of Inl err \<Rightarrow> None | Inr bundles \<Rightarrow> map_option (field_of fld) (bundles name))"

section \<open>The displayed hash of an encryption key (encryptionKeyHash)\<close>

text \<open>
  \<open>hex.EncodeToString\<close>: two lower-case hexadecimal digits per byte.
\<close>

definition hex_digit :: "nat \<Rightarrow> char" where
  "hex_digit n = ''0123456789abcdef'' ! n"

definition hex_EncodeToString :: "string \<Rightarrow> string" where
  "hex_EncodeToString bs =
     concat (map (\<lambda>b. [hex_digit ((of_char b :: nat) div 16), hex_digit ((of_char b :: nat) mod 16)]) bs)"

record params =
  Memory :: nat
  Iterations :: nat
  Parallelism :: nat
  SaltLength :: nat
  KeyLength :: nat

text \<open>
  The two calls into libraries are parameters: \<open>rand_Read n\<close> is what \<open>rand.Read\<close>
  gives for a buffer of \<open>n\<close> bytes, the bytes or an error; \<open>argon2_IDKey\<close> is the key
  derivation \<open>argon2.IDKey(password, salt, time, memory, threads, keyLen)\<close>.
\<close>

definition generateRandomBytes :: "(nat \<Rightarrow> go_error + string) \<Rightarrow> nat \<Rightarrow> go_error + string" where
  "generateRandomBytes rand_Read n = rand_Read n"

definition generateFromPlainText ::
  "(string \<Rightarrow> string \<Rightarrow> nat \<Rightarrow> nat \<Rightarrow> nat \<Rightarrow> nat \<Rightarrow> string) \<Rightarrow> (nat \<Rightarrow> go_error + string)
   \<Rightarrow> string \<Rightarrow> params \<Rightarrow> go_error + string" where
  "generateFromPlainText argon2_IDKey rand_Read plainText p =
     (case generateRandomBytes rand_Read (SaltLength p) of
        Inl err \<Rightarrow> Inl err
      | Inr salt \<Rightarrow>
          Inr (argon2_IDKey plainText salt (Iterations p) (Memory p) (Parallelism p) (KeyLength p)))"

definition encryptionKeyHash ::
  "(string \<Rightarrow> string \<Rightarrow> nat \<Rightarrow> nat \<Rightarrow> nat \<Rightarrow> nat \<Rightarrow> string) \<Rightarrow> (nat \<Rightarrow> go_error + string)
   \<Rightarrow> string \<Rightarrow> failure + string" where
  "encryptionKeyHash argon2_IDKey rand_Read plainText =
     (let argonParams = \<lparr>Memory = 64 * 1024, Iterations = 4, Parallelism = 4,
                          SaltLength = 16, KeyLength = 32\<rparr>
      in case generateFromPlainText argon2_IDKey rand_Read plainText argonParams of
           Inl err \<Rightarrow> Inl (Fatal err)
         | Inr hash \<Rightarrow> Inr (hex_EncodeToString hash))"

section \<open>Facts about the string helpers\<close>

lemma trim_health: "strings_TrimSpace ascii_strings ''health'' = ''health''"
  by code_simp

lemma trim_empty: "strings_TrimSpace ascii_strings [] = []"
  by (simp add: ascii_strings_def)

lemma strings_Contains_iff:
  "strings_Contains s substr \<longleftrightarrow> (\<exists>ps ss. s = ps @ substr @ ss)"
proof (induction s)
  case Nil
  then show ?case by auto
next
  case (Cons c cs)
  show ?case
  proof
    assume "strings_Contains (c # cs) substr"
    then consider "prefix substr (c # cs)" | "strings_Contains cs substr" by auto
    then show "\<exists>ps ss. c # cs = ps @ substr @ ss"
    proof cases
      case 1
      then obtain ss where "c # cs = substr @ ss" by (auto simp: prefix_def)
      then have "c # cs = [] @ substr @ ss" by simp
      then show ?thesis by blast
    next
      case 2
      with Cons.IH obtain ps ss where "cs = ps @ substr @ ss" by blast
      then have "c # cs = (c # ps) @ substr @ ss" by simp
      then show ?thesis by blast
    qed
  next
    assume "\<exists>ps ss. c # cs = ps @ substr @ ss"
    then obtain ps ss where eq: "c # cs = ps @ substr @ ss" by blast
    show "strings_Contains (c # cs) substr"
    proof (cases ps)
      case Nil
      with eq have "prefix substr (c # cs)" by (simp add: prefix_def)
      then show ?thesis by simp
    next
      case (Cons p ps')
      with eq have "cs = ps' @ substr @ ss" by simp
      with Cons.IH have "strings_Contains cs substr" by blast
      then show ?thesis by simp
    qed
  qed
qed

lemma strings_Contains_infix: "strings_Contains (ps @ substr @ ss) substr"
  unfolding strings_Contains_iff by blast

lemma strings_Contains_prefix: "strings_Contains (substr @ ss) substr"
  using strings_Contains_infix [of "[]" substr ss] by simp

lemma strings_Contains_append_right:
  "strings_Contains t substr \<Longrightarrow> strings_Contains (s @ t) substr"
proof -
  assume "strings_Contains t substr"
  then obtain ps ss where "t = ps @ substr @ ss" unfolding strings_Contains_iff by blast
  then have "s @ t = (s @ ps) @ substr @ ss" by simp
  then show ?thesis unfolding strings_Contains_iff by blast
qed

lemma strings_Join_contains_elem:
  "x \<in> set xs \<Longrightarrow> strings_Contains (strings_Join xs sep) x"
proof (induction xs sep rule: strings_Join.induct)
  case (1 sep)
  then show ?case by simp
next
  case (2 y sep)
  then show ?case using strings_Contains_prefix [of x "[]"] by simp
next
  case (3 y z zs sep)
  show ?case
  proof (cases "x = y")
    case True
    then show ?thesis using strings_Contains_prefix [of y "sep @ strings_Join (z # zs) sep"] by simp
  next
    case False
    with "3.prems" have "x \<in> set (z # zs)" by simp
    then have "strings_Contains (strings_Join (z # zs) sep) x" by (rule "3.IH")
    then have "strings_Contains ((y @ sep) @ strings_Join (z # zs) sep) x"
      by (rule strings_Contains_append_right)
    then show ?thesis by simp
  qed
qed

section \<open>DNS verification: results\<close>

lemma dns_scan_result:
  "dns_scan hostIp ips (b, acc) = (b \<or> hostIp \<in> set ips, acc @ ips)"
  by (induction ips arbitrary: b acc) auto

text \<open>
  Claim C8. Once the URL parses and the lookup answers with the address list \<open>ips\<close>,
  verification returns no error exactly when the expected address \<open>hostIp\<close> is one of
  \<open>ips\<close>; otherwise it returns an ordinary error whose message contains the expected
  address and every resolved address.
\<close>

theorem GetDnsLookup_verifies:
  assumes "url_Parse httpUrl = Inr host" and "net_LookupIP host = Inr ips"
  shows "(GetDnsLookup url_Parse net_LookupIP httpUrl hostIp = None \<longleftrightarrow> hostIp \<in> set ips)
       \<and> (hostIp \<notin> set ips \<longrightarrow>
            (\<exists>msg. GetDnsLookup url_Parse net_LookupIP httpUrl hostIp
                     = Some (Err (GoError PlainError msg))
                 \<and> strings_Contains msg hostIp
                 \<and> (\<forall>ip \<in> set ips. strings_Contains msg ip)))"
proof -
  let ?head = "''Tried to resolve '' @ [CHR 0x27] @ host @ [CHR 0x27]
                 @ ''but got an outdated result'' @ [CHR 0x0A] @ ''Expected to get these ips: ''"
  let ?mid = "'' while the actual result was: ''"
  let ?msg = "?head @ hostIp @ ?mid @ strings_Join ips [CHR 0x0A]"
  have run: "GetDnsLookup url_Parse net_LookupIP httpUrl hostIp
               = (if hostIp \<in> set ips then None else Some (Err (GoError PlainError ?msg)))"
    using assms by (simp add: GetDnsLookup_def dns_scan_result errors_New_def)
  have expected: "strings_Contains ?msg hostIp"
    by (rule strings_Contains_infix)
  have resolved: "strings_Contains ?msg ip" if "ip \<in> set ips" for ip
  proof -
    have "strings_Contains (strings_Join ips [CHR 0x0A]) ip"
      using that by (rule strings_Join_contains_elem)
    then have "strings_Contains ((?head @ hostIp @ ?mid) @ strings_Join ips [CHR 0x0A]) ip"
      by (rule strings_Contains_append_right)
    then show ?thesis by simp
  qed
  show ?thesis
    unfolding run using expected resolved by auto
qed

theorem GetDnsLookup_verifies_witness:
  "GetDnsLookup (\<lambda>u. Inr ''a.example.com'') (\<lambda>h. Inr [''10.0.0.6'', ''10.0.0.7''])
       ''https://a.example.com'' ''10.0.0.5'' \<noteq> None
   \<and> (\<exists>msg. GetDnsLookup (\<lambda>u. Inr ''a.example.com'') (\<lambda>h. Inr [''10.0.0.6'', ''10.0.0.7''])
                ''https://a.example.com'' ''10.0.0.5'' = Some (Err (GoError PlainError msg))
          \<and> strings_Contains msg ''10.0.0.5''
          \<and> strings_Contains msg ''10.0.0.6''
          \<and> strings_Contains msg ''10.0.0.7'')"
  using GetDnsLookup_verifies
    [of "\<lambda>u. Inr ''a.example.com''" "''https://a.example.com''" "''a.example.com''"
        "\<lambda>h. Inr [''10.0.0.6'', ''10.0.0.7'']" "[''10.0.0.6'', ''10.0.0.7'']" "''10.0.0.5''"]
  by simp

section \<open>Remote shell connection: results\<close>

lemma connect_loop_over:
  "\<not> i \<le> NUMBER_OF_RETRIES \<Longrightarrow> connect_loop d hp i conn evs = (Inr conn, evs)"
  by (subst connect_loop.simps) simp

lemma connect_loop_connected:
  "i \<le> NUMBER_OF_RETRIES \<Longrightarrow> d i = Inr c \<Longrightarrow>
   connect_loop d hp i conn evs = (Inr (Some c), evs @ [SshDial hp])"
  by (subst connect_loop.simps) simp

lemma connect_loop_retry:
  "i < NUMBER_OF_RETRIES \<Longrightarrow> d i = Inl err \<Longrightarrow>
   connect_loop d hp i conn evs
     = connect_loop d hp (Suc i) None (evs @ [SshDial hp, SshSleep 2])"
  by (subst connect_loop.simps) simp

lemma connect_loop_give_up:
  "d NUMBER_OF_RETRIES = Inl err \<Longrightarrow>
   connect_loop d hp NUMBER_OF_RETRIES conn evs
     = (Inl (errors_New (''Unable to SSH to '' @ hp @ '' because '' @ err_text err)),
        evs @ [SshDial hp])"
  by (subst connect_loop.simps) simp

lemma connect_loop_dials:
  "length (filter is_dial (snd (connect_loop d hp i conn evs)))
     \<le> length (filter is_dial evs) + (Suc NUMBER_OF_RETRIES - i)"
proof (induction d hp i conn evs rule: connect_loop.induct)
  case (1 d hp i conn evs)
  show ?case
  proof (cases "i \<le> NUMBER_OF_RETRIES")
    case False
    then show ?thesis by (simp add: connect_loop_over)
  next
    case le: True
    show ?thesis
    proof (cases "d i")
      case (Inr c)
      with le show ?thesis by (simp add: connect_loop_connected)
    next
      case (Inl err)
      show ?thesis
      proof (cases "i < NUMBER_OF_RETRIES")
        case True
        have "length (filter is_dial (snd (connect_loop d hp (i + 1) None
                 (evs @ [SshDial hp, SshSleep 2]))))
              \<le> length (filter is_dial (evs @ [SshDial hp, SshSleep 2]))
                 + (Suc NUMBER_OF_RETRIES - (i + 1))"
          using le Inl True by (rule "1.IH")
        with True Inl show ?thesis by (simp add: connect_loop_retry)
      next
        case False
        with le have "i = NUMBER_OF_RETRIES" by simp
        with Inl show ?thesis by (simp add: connect_loop_give_up)
      qed
    qed
  qed
qed

lemma connect_loop_success:
  assumes "k \<le> NUMBER_OF_RETRIES" and "d k = Inr c"
    and "\<forall>j. i0 \<le> j \<and> j < k \<longrightarrow> isl (d j)"
  shows "i0 \<le> i \<Longrightarrow> i \<le> k \<Longrightarrow>
         connect_loop d hp i conn evs
           = (Inr (Some c),
              evs @ concat (replicate (k - i) [SshDial hp, SshSleep 2]) @ [SshDial hp])"
proof (induction "k - i" arbitrary: i conn evs)
  case 0
  then have "i = k" by simp
  with assms show ?case by (simp add: connect_loop_connected)
next
  case (Suc n)
  then have lt: "i < k" and n: "n = k - Suc i" and le: "Suc i \<le> k" and i0: "i0 \<le> Suc i"
    by auto
  have "isl (d i)" using assms(3) lt Suc.prems(1) by simp
  then obtain err where err: "d i = Inl err" by (cases "d i") auto
  have step: "connect_loop d hp i conn evs
                = connect_loop d hp (Suc i) None (evs @ [SshDial hp, SshSleep 2])"
    using lt assms(1) err by (simp add: connect_loop_retry)
  have "k - i = Suc (k - Suc i)" using lt by simp
  then show ?case
    unfolding step
    using Suc.hyps(1) [OF n i0 le, of None "evs @ [SshDial hp, SshSleep 2]"]
    by simp
qed

lemma connect_loop_failure:
  assumes "\<forall>j. i0 \<le> j \<and> j \<le> NUMBER_OF_RETRIES \<longrightarrow> isl (d j)"
  shows "i0 \<le> i \<Longrightarrow> i \<le> NUMBER_OF_RETRIES \<Longrightarrow>
         connect_loop d hp i conn evs
           = (Inl (errors_New (''Unable to SSH to '' @ hp @ '' because ''
                               @ err_text (projl (d NUMBER_OF_RETRIES)))),
              evs @ concat (replicate (NUMBER_OF_RETRIES - i) [SshDial hp, SshSleep 2])
                  @ [SshDial hp])"
proof (induction "NUMBER_OF_RETRIES - i" arbitrary: i conn evs)
  case 0
  then have i: "i = NUMBER_OF_RETRIES" by simp
  have "isl (d NUMBER_OF_RETRIES)" using assms "0.prems"(1) i by simp
  then obtain err where "d NUMBER_OF_RETRIES = Inl err"
    by (cases "d NUMBER_OF_RETRIES") auto
  with i show ?case by (simp add: connect_loop_give_up)
next
  case (Suc n)
  then have lt: "i < NUMBER_OF_RETRIES" and n: "n = NUMBER_OF_RETRIES - Suc i"
    and le: "Suc i \<le> NUMBER_OF_RETRIES" and i0: "i0 \<le> Suc i" by auto
  have "isl (d i)" using assms lt Suc.prems(1) by simp
  then obtain err where err: "d i = Inl err" by (cases "d i") auto
  have step: "connect_loop d hp i conn evs
                = connect_loop d hp (Suc i) None (evs @ [SshDial hp, SshSleep 2])"
    using lt err by (simp add: connect_loop_retry)
  have "NUMBER_OF_RETRIES - i = Suc (NUMBER_OF_RETRIES - Suc i)" using lt by simp
  then show ?case
    unfolding step
    using Suc.hyps(1) [OF n i0 le, of None "evs @ [SshDial hp, SshSleep 2]"]
    by simp
qed

text \<open>
  Claim C7, as the code has it. Whatever the network answers, a connection attempt dials
  at most six times (the first dial and \<open>NUMBER_OF_RETRIES = 5\<close> retries). When all six
  dials fail, the result is an error whose message contains the marker
  \<open>Unable to SSH to\<close>, after six dials with a pause of two seconds after each of the
  first five. When the dial of some iteration \<open>k \<le> 5\<close> is the first to succeed, its
  connection is returned with no error, after \<open>k\<close> failed dials, each followed by a
  pause of two seconds, and the successful one.
\<close>

theorem ConnectToRemoteWithRetry_six_dials:
  fixes d :: "nat \<Rightarrow> go_error + 'c"
  defines "hp \<equiv> \<lambda>ssh ip. net_JoinHostPort ip (strconv_Itoa (getPort ssh))"
  shows "length (filter is_dial (snd (ConnectToRemoteWithRetry d ssh ip conn))) \<le> 6
     \<and> ((\<forall>j \<le> 5. isl (d j)) \<longrightarrow>
          (\<exists>e. ConnectToRemoteWithRetry d ssh ip conn
                  = (Inl e, concat (replicate 5 [SshDial (hp ssh ip), SshSleep 2])
                            @ [SshDial (hp ssh ip)])
              \<and> strings_Contains (err_text e) ''Unable to SSH to''))
     \<and> (\<forall>k c. k \<le> 5 \<and> d k = Inr c \<and> (\<forall>j < k. isl (d j)) \<longrightarrow>
          ConnectToRemoteWithRetry d ssh ip conn
            = (Inr (Some c), concat (replicate k [SshDial (hp ssh ip), SshSleep 2])
                             @ [SshDial (hp ssh ip)]))"
proof (intro conjI allI impI)
  show "length (filter is_dial (snd (ConnectToRemoteWithRetry d ssh ip conn))) \<le> 6"
    using connect_loop_dials [of d "hp ssh ip" 0 conn "[]"]
    by (simp add: ConnectToRemoteWithRetry_def hp_def NUMBER_OF_RETRIES_def)
next
  assume "\<forall>j \<le> 5. isl (d j)"
  then have "\<forall>j. 0 \<le> j \<and> j \<le> NUMBER_OF_RETRIES \<longrightarrow> isl (d j)"
    by (simp add: NUMBER_OF_RETRIES_def)
  from connect_loop_failure [OF this, of 0 "hp ssh ip" conn "[]"]
  have run: "ConnectToRemoteWithRetry d ssh ip conn
          = (Inl (errors_New (''Unable to SSH to '' @ hp ssh ip @ '' because ''
                               @ err_text (projl (d 5)))),
             concat (replicate 5 [SshDial (hp ssh ip), SshSleep 2]) @ [SshDial (hp ssh ip)])"
    by (simp add: ConnectToRemoteWithRetry_def hp_def NUMBER_OF_RETRIES_def)
  have "strings_Contains (''Unable to SSH to'' @ '' '' @ hp ssh ip @ '' because ''
                           @ err_text (projl (d 5))) ''Unable to SSH to''"
    by (rule strings_Contains_prefix)
  then have "strings_Contains (err_text (errors_New (''Unable to SSH to '' @ hp ssh ip
                 @ '' because '' @ err_text (projl (d 5))))) ''Unable to SSH to''"
    by (simp add: errors_New_def)
  with run show "\<exists>e. ConnectToRemoteWithRetry d ssh ip conn
                  = (Inl e, concat (replicate 5 [SshDial (hp ssh ip), SshSleep 2])
                            @ [SshDial (hp ssh ip)])
              \<and> strings_Contains (err_text e) ''Unable to SSH to''"
    by blast
next
  fix k c
  assume a: "k \<le> 5 \<and> d k = Inr c \<and> (\<forall>j < k. isl (d j))"
  then have k: "k \<le> NUMBER_OF_RETRIES" and dk: "d k = Inr c"
    and before: "\<forall>j. 0 \<le> j \<and> j < k \<longrightarrow> isl (d j)"
    by (simp_all add: NUMBER_OF_RETRIES_def)
  from connect_loop_success [OF k dk before, of 0 "hp ssh ip" conn "[]"]
  show "ConnectToRemoteWithRetry d ssh ip conn
            = (Inr (Some c), concat (replicate k [SshDial (hp ssh ip), SshSleep 2])
                             @ [SshDial (hp ssh ip)])"
    by (simp add: ConnectToRemoteWithRetry_def hp_def)
qed

theorem ConnectToRemoteWithRetry_six_dials_witness:
  "(\<exists>e. fst (ConnectToRemoteWithRetry dial_refused ssh_default ''10.0.0.5'' None) = Inl e
        \<and> strings_Contains (err_text e) ''Unable to SSH to'')
   \<and> ConnectToRemoteWithRetry dial_fourth ssh_default ''10.0.0.5'' None
       = (Inr (Some 3),
          [SshDial ''10.0.0.5:22'', SshSleep 2, SshDial ''10.0.0.5:22'', SshSleep 2,
           SshDial ''10.0.0.5:22'', SshSleep 2, SshDial ''10.0.0.5:22''])"
proof
  have refused: "\<forall>j \<le> 5. isl (dial_refused j)"
    by (simp add: dial_refused_def)
  note all = ConnectToRemoteWithRetry_six_dials [of dial_refused ssh_default "''10.0.0.5''" None]
  from all [THEN conjunct2, THEN conjunct1, THEN mp, OF refused]
  obtain e where run: "ConnectToRemoteWithRetry dial_refused ssh_default ''10.0.0.5'' None
      = (Inl e, concat (replicate 5
           [SshDial (net_JoinHostPort ''10.0.0.5'' (strconv_Itoa (getPort ssh_default))), SshSleep 2])
           @ [SshDial (net_JoinHostPort ''10.0.0.5'' (strconv_Itoa (getPort ssh_default)))])"
    and marker: "strings_Contains (err_text e) ''Unable to SSH to''"
    by blast
  from run have "fst (ConnectToRemoteWithRetry dial_refused ssh_default ''10.0.0.5'' None) = Inl e"
    by simp
  with marker
  show "\<exists>e. fst (ConnectToRemoteWithRetry dial_refused ssh_default ''10.0.0.5'' None) = Inl e
        \<and> strings_Contains (err_text e) ''Unable to SSH to''"
    by blast
next
  have hp: "net_JoinHostPort ''10.0.0.5'' (strconv_Itoa (getPort ssh_default)) = ''10.0.0.5:22''"
    by code_simp
  have fourth: "(3::nat) \<le> 5 \<and> dial_fourth 3 = Inr 3 \<and> (\<forall>j < 3. isl (dial_fourth j))"
    by (simp add: dial_fourth_def)
  have three: "replicate 3 x = [x, x, x]" for x :: "ssh_event list"
    by (simp add: eval_nat_numeral)
  note all = ConnectToRemoteWithRetry_six_dials [of dial_fourth ssh_default "''10.0.0.5''" None]
  from all [THEN conjunct2, THEN conjunct2, THEN spec, THEN spec, THEN mp, OF fourth]
  show "ConnectToRemoteWithRetry dial_fourth ssh_default ''10.0.0.5'' None
       = (Inr (Some 3),
          [SshDial ''10.0.0.5:22'', SshSleep 2, SshDial ''10.0.0.5:22'', SshSleep 2,
           SshDial ''10.0.0.5:22'', SshSleep 2, SshDial ''10.0.0.5:22''])"
    unfolding hp three by simp
qed

text \<open>
  The bound of five dial attempts fails on a network that refuses every dial: the loop
  dials six times.
\<close>

theorem ConnectToRemoteWithRetry_five_dials_counterexample:
  "\<not> length (filter is_dial
        (snd (ConnectToRemoteWithRetry dial_refused ssh_default ''10.0.0.5'' None))) \<le> 5"
proof -
  have "\<forall>j. 0 \<le> j \<and> j \<le> NUMBER_OF_RETRIES \<longrightarrow> isl (dial_refused j)"
    by (simp add: dial_refused_def)
  from connect_loop_failure [OF this, where i = 0 and conn = None and evs = "[]"]
  have run: "snd (ConnectToRemoteWithRetry dial_refused ssh_default ''10.0.0.5'' None)
     = concat (replicate 5
           [SshDial (net_JoinHostPort ''10.0.0.5'' (strconv_Itoa (getPort ssh_default))), SshSleep 2])
           @ [SshDial (net_JoinHostPort ''10.0.0.5'' (strconv_Itoa (getPort ssh_default)))]"
    by (simp add: ConnectToRemoteWithRetry_def NUMBER_OF_RETRIES_def)
  have five: "replicate 5 x = [x, x, x, x, x]" for x :: "ssh_event list"
    by (simp add: eval_nat_numeral)
  show ?thesis
    unfolding run five by simp
qed

section \<open>Retry policy: results\<close>

lemma retry_log_0: "retry_log log ev 0 = log"
  by (simp add: retry_log_def)

lemma retry_log_Suc: "retry_log log ev (Suc k) = retry_log (log @ [ev, Sleep 5]) ev k"
  by (simp add: retry_log_def)

lemma retry_log_Suc_end: "retry_log log ev (Suc k) = retry_log log ev k @ [ev, Sleep 5]"
  by (induction k arbitrary: log) (simp_all add: retry_log_def)

lemma NUMBER_OF_RETRIES_Suc: "NUMBER_OF_RETRIES = Suc (Suc (Suc (Suc (Suc 0))))"
  by (simp add: NUMBER_OF_RETRIES_def)

lemma executeWithRetries_loop_no_leader:
  assumes "\<forall>j<k. \<exists>e. answers (store_cluster store) (retry_log log (ServerSend operation) j)
                        (ServerSend operation) = Some e \<and> err_kind e = NoLeaderError"
    and "k \<le> n"
  shows "executeWithRetries_loop store operation n err log
           = executeWithRetries_loop store operation (n - k)
               (if k = 0 then err
                else answers (store_cluster store)
                       (retry_log log (ServerSend operation) (k - 1)) (ServerSend operation))
               (retry_log log (ServerSend operation) k)"
  using assms
proof (induction k arbitrary: n err log)
  case 0
  then show ?case by (simp add: retry_log_0)
next
  case (Suc k)
  from Suc.prems(2) obtain m where n: "n = Suc m" and km: "k \<le> m" by (cases n) auto
  from Suc.prems(1) obtain e where e: "answers (store_cluster store) log (ServerSend operation) = Some e"
    and kind: "err_kind e = NoLeaderError"
    using retry_log_0 by (metis zero_less_Suc)
  have later: "\<forall>j<k. \<exists>e. answers (store_cluster store)
                    (retry_log (log @ [ServerSend operation, Sleep 5]) (ServerSend operation) j)
                    (ServerSend operation) = Some e \<and> err_kind e = NoLeaderError"
    using Suc.prems(1) by (simp add: retry_log_Suc [symmetric])
  have step: "executeWithRetries_loop store operation n err log
                = executeWithRetries_loop store operation m (Some e)
                    (log @ [ServerSend operation, Sleep 5])"
    using e kind n by simp
  show ?case
    unfolding step using Suc.IH [OF later km, of "Some e"] e
    by (cases k) (simp_all add: n retry_log_Suc retry_log_0)
qed

lemma maintenance_loop_failing:
  assumes "\<forall>j<k. answers (store_cluster store)
                    (retry_log log (MaintenanceSend (store_Database store) operation) j)
                    (MaintenanceSend (store_Database store) operation) \<noteq> None"
    and "k \<le> n"
  shows "executeWithRetriesMaintenanceOperations_loop store operation n err log
           = executeWithRetriesMaintenanceOperations_loop store operation (n - k)
               (if k = 0 then err
                else answers (store_cluster store)
                       (retry_log log (MaintenanceSend (store_Database store) operation) (k - 1))
                       (MaintenanceSend (store_Database store) operation))
               (retry_log log (MaintenanceSend (store_Database store) operation) k)"
  using assms
proof (induction k arbitrary: n err log)
  case 0
  then show ?case by (simp add: retry_log_0)
next
  case (Suc k)
  let ?mv = "MaintenanceSend (store_Database store) operation"
  from Suc.prems(2) obtain m where n: "n = Suc m" and km: "k \<le> m" by (cases n) auto
  from Suc.prems(1) have "answers (store_cluster store) log ?mv \<noteq> None"
    using retry_log_0 by (metis zero_less_Suc)
  then obtain e where e: "answers (store_cluster store) log ?mv = Some e" by blast
  have later: "\<forall>j<k. answers (store_cluster store) (retry_log (log @ [?mv, Sleep 5]) ?mv j) ?mv \<noteq> None"
    using Suc.prems(1) by (simp add: retry_log_Suc [symmetric])
  have step: "executeWithRetriesMaintenanceOperations_loop store operation n err log
                = executeWithRetriesMaintenanceOperations_loop store operation m (Some e)
                    (log @ [?mv, Sleep 5])"
    using e n by simp
  show ?case
    unfolding step using Suc.IH [OF later km, of "Some e"] e
    by (cases k) (simp_all add: n retry_log_Suc retry_log_0)
qed

text \<open>
  Claim C2, as the code has it. A server operation sent by \<open>executeWithRetries\<close> is
  attempted again only after a no-leader failure, at most five attempts in all, with a
  pause of five seconds after every no-leader failure: after \<open>k < 5\<close> no-leader failures
  a success returns no error and an error of another class is returned at once, each
  after \<open>k\<close> pauses; five no-leader failures return the last of them. A maintenance
  operation sent by \<open>executeWithRetriesMaintenanceOperations\<close> is attempted again after
  a failure of any class, at most five attempts in all, with a pause of five seconds
  after every failure.
\<close>

theorem executeWithRetries_policy:
  fixes store :: DocumentStore and operation :: operation and log :: "event list"
  defines "ev \<equiv> ServerSend operation"
    and "mv \<equiv> MaintenanceSend (store_Database store) operation"
    and "ask \<equiv> answers (store_cluster store)"
  shows
    "(\<forall>k. k < 5
          \<and> (\<forall>j<k. \<exists>e. ask (retry_log log ev j) ev = Some e \<and> err_kind e = NoLeaderError)
          \<and> ask (retry_log log ev k) ev = None
        \<longrightarrow> executeWithRetries store operation log = (None, retry_log log ev k @ [ev]))
   \<and> (\<forall>k e. k < 5
          \<and> (\<forall>j<k. \<exists>e. ask (retry_log log ev j) ev = Some e \<and> err_kind e = NoLeaderError)
          \<and> ask (retry_log log ev k) ev = Some e \<and> err_kind e \<noteq> NoLeaderError
        \<longrightarrow> executeWithRetries store operation log = (Some e, retry_log log ev k @ [ev]))
   \<and> ((\<forall>j<5. \<exists>e. ask (retry_log log ev j) ev = Some e \<and> err_kind e = NoLeaderError)
        \<longrightarrow> executeWithRetries store operation log
              = (ask (retry_log log ev 4) ev, retry_log log ev 5))
   \<and> (\<forall>k. k < 5
          \<and> (\<forall>j<k. ask (retry_log log mv j) mv \<noteq> None)
          \<and> ask (retry_log log mv k) mv = None
        \<longrightarrow> executeWithRetriesMaintenanceOperations store operation log
              = (None, retry_log log mv k @ [mv]))
   \<and> ((\<forall>j<5. ask (retry_log log mv j) mv \<noteq> None)
        \<longrightarrow> executeWithRetriesMaintenanceOperations store operation log
              = (ask (retry_log log mv 4) mv, retry_log log mv 5))"
proof (intro conjI allI impI)
  fix k
  assume a: "k < 5
          \<and> (\<forall>j<k. \<exists>e. ask (retry_log log ev j) ev = Some e \<and> err_kind e = NoLeaderError)
          \<and> ask (retry_log log ev k) ev = None"
  then have "k < 5" by simp
  then have le: "k \<le> NUMBER_OF_RETRIES" and more: "NUMBER_OF_RETRIES - k = Suc (4 - k)"
    unfolding NUMBER_OF_RETRIES_def by arith+
  from a have fails: "\<forall>j<k. \<exists>e. answers (store_cluster store)
        (retry_log log (ServerSend operation) j) (ServerSend operation) = Some e
        \<and> err_kind e = NoLeaderError"
    by (simp add: ev_def ask_def)
  from a have last: "answers (store_cluster store)
        (retry_log log (ServerSend operation) k) (ServerSend operation) = None"
    by (simp add: ev_def ask_def)
  show "executeWithRetries store operation log = (None, retry_log log ev k @ [ev])"
    unfolding executeWithRetries_def
      executeWithRetries_loop_no_leader [OF fails le, of None] more
    using last by (simp add: ev_def)
next
  fix k e
  assume a: "k < 5
          \<and> (\<forall>j<k. \<exists>e. ask (retry_log log ev j) ev = Some e \<and> err_kind e = NoLeaderError)
          \<and> ask (retry_log log ev k) ev = Some e \<and> err_kind e \<noteq> NoLeaderError"
  then have "k < 5" by simp
  then have le: "k \<le> NUMBER_OF_RETRIES" and more: "NUMBER_OF_RETRIES - k = Suc (4 - k)"
    unfolding NUMBER_OF_RETRIES_def by arith+
  from a have fails: "\<forall>j<k. \<exists>e. answers (store_cluster store)
        (retry_log log (ServerSend operation) j) (ServerSend operation) = Some e
        \<and> err_kind e = NoLeaderError"
    by (simp add: ev_def ask_def)
  from a have last: "answers (store_cluster store)
        (retry_log log (ServerSend operation) k) (ServerSend operation) = Some e"
    and kind: "err_kind e \<noteq> NoLeaderError"
    by (simp_all add: ev_def ask_def)
  show "executeWithRetries store operation log = (Some e, retry_log log ev k @ [ev])"
    unfolding executeWithRetries_def
      executeWithRetries_loop_no_leader [OF fails le, of None] more
    using last kind by (simp add: ev_def)
next
  assume a: "\<forall>j<5. \<exists>e. ask (retry_log log ev j) ev = Some e \<and> err_kind e = NoLeaderError"
  have le: "5 \<le> NUMBER_OF_RETRIES" and none: "NUMBER_OF_RETRIES - 5 = 0"
    by (simp_all add: NUMBER_OF_RETRIES_def)
  from a have fails: "\<forall>j<5. \<exists>e. answers (store_cluster store)
        (retry_log log (ServerSend operation) j) (ServerSend operation) = Some e
        \<and> err_kind e = NoLeaderError"
    by (simp add: ev_def ask_def)
  show "executeWithRetries store operation log
              = (ask (retry_log log ev 4) ev, retry_log log ev 5)"
    unfolding executeWithRetries_def
      executeWithRetries_loop_no_leader [OF fails le, of None] none
    by (simp add: ev_def ask_def)
next
  fix k
  assume a: "k < 5 \<and> (\<forall>j<k. ask (retry_log log mv j) mv \<noteq> None)
          \<and> ask (retry_log log mv k) mv = None"
  then have "k < 5" by simp
  then have le: "k \<le> NUMBER_OF_RETRIES" and more: "NUMBER_OF_RETRIES - k = Suc (4 - k)"
    unfolding NUMBER_OF_RETRIES_def by arith+
  from a have fails: "\<forall>j<k. answers (store_cluster store)
        (retry_log log (MaintenanceSend (store_Database store) operation) j)
        (MaintenanceSend (store_Database store) operation) \<noteq> None"
    by (simp add: mv_def ask_def)
  from a have last: "answers (store_cluster store)
        (retry_log log (MaintenanceSend (store_Database store) operation) k)
        (MaintenanceSend (store_Database store) operation) = None"
    by (simp add: mv_def ask_def)
  show "executeWithRetriesMaintenanceOperations store operation log
              = (None, retry_log log mv k @ [mv])"
    unfolding executeWithRetriesMaintenanceOperations_def
      maintenance_loop_failing [OF fails le, of None] more
    using last by (simp add: mv_def)
next
  assume a: "\<forall>j<5. ask (retry_log log mv j) mv \<noteq> None"
  have le: "5 \<le> NUMBER_OF_RETRIES" and none: "NUMBER_OF_RETRIES - 5 = 0"
    by (simp_all add: NUMBER_OF_RETRIES_def)
  from a have fails: "\<forall>j<5. answers (store_cluster store)
        (retry_log log (MaintenanceSend (store_Database store) operation) j)
        (MaintenanceSend (store_Database store) operation) \<noteq> None"
    by (simp add: mv_def ask_def)
  show "executeWithRetriesMaintenanceOperations store operation log
              = (ask (retry_log log mv 4) mv, retry_log log mv 5)"
    unfolding executeWithRetriesMaintenanceOperations_def
      maintenance_loop_failing [OF fails le, of None] none
    by (simp add: mv_def ask_def)
qed

theorem executeWithRetries_policy_witness:
  "executeWithRetries (store_on electing_cluster) OperationGetClusterTopology []
     = (None,
        [ServerSend OperationGetClusterTopology, Sleep 5,
         ServerSend OperationGetClusterTopology, Sleep 5,
         ServerSend OperationGetClusterTopology, Sleep 5,
         ServerSend OperationGetClusterTopology])"
proof -
  let ?ev = "ServerSend OperationGetClusterTopology"
  have ask: "answers (store_cluster (store_on electing_cluster)) l e
               = (if length l < 6 then Some no_leader else None)" for l e
    by (simp add: store_on_def electing_cluster_def)
  have len: "length (retry_log [] ?ev j) = 2 * j" for j
    by (induction j) (simp_all add: retry_log_Suc_end retry_log_0)
  have hyp: "(3::nat) < 5
      \<and> (\<forall>j<3. \<exists>e. answers (store_cluster (store_on electing_cluster)) (retry_log [] ?ev j) ?ev
                      = Some e \<and> err_kind e = NoLeaderError)
      \<and> answers (store_cluster (store_on electing_cluster)) (retry_log [] ?ev 3) ?ev = None"
    by (simp add: ask len no_leader_def)
  have three: "retry_log [] ?ev 3 = [?ev, Sleep 5, ?ev, Sleep 5, ?ev, Sleep 5]"
    by (simp add: retry_log_def eval_nat_numeral)
  from executeWithRetries_policy
        [where log = "[]" and operation = OperationGetClusterTopology
           and store = "store_on electing_cluster",
         THEN conjunct1, THEN spec, THEN mp, OF hyp]
  show ?thesis unfolding three by simp
qed

text \<open>
  The health probe on a store whose database does not exist: the failure is not of the
  no-leader class, yet it is not returned at once; the probe is sent five times, with
  five pauses.
\<close>

theorem maintenance_retry_counterexample:
  "executeWithRetriesMaintenanceOperations (store_on bare_cluster) OperationDatabaseHealthCheck []
     = (Some missing_database,
        [MaintenanceSend ''health'' OperationDatabaseHealthCheck, Sleep 5,
         MaintenanceSend ''health'' OperationDatabaseHealthCheck, Sleep 5,
         MaintenanceSend ''health'' OperationDatabaseHealthCheck, Sleep 5,
         MaintenanceSend ''health'' OperationDatabaseHealthCheck, Sleep 5,
         MaintenanceSend ''health'' OperationDatabaseHealthCheck, Sleep 5])
   \<and> err_kind missing_database \<noteq> NoLeaderError"
  by (simp add: executeWithRetriesMaintenanceOperations_def NUMBER_OF_RETRIES_Suc
        store_on_def bare_cluster_def calm_cluster_def missing_database_def)

section \<open>The modify fallback: results\<close>


















section \<open>Order of the phases of Deploy: results\<close>

lemma emits_refl: "emits (r, log) log P"
  by (simp add: emits_def)

lemma emits_trans:
  "emits (r1, log1) log P \<Longrightarrow> emits res log1 P \<Longrightarrow> emits res log P"
  by (auto simp: emits_def)

lemma emits_mono:
  "emits res log P \<Longrightarrow> (\<And>e. P e \<Longrightarrow> Q e) \<Longrightarrow> emits res log Q"
  by (auto simp: emits_def list_all_iff)

lemma emits_append:
  "list_all P evs \<Longrightarrow> emits res (log @ evs) P \<Longrightarrow> emits res log P"
  by (auto simp: emits_def)

lemma executeWithRetries_loop_emits:
  "emits (executeWithRetries_loop store operation n err log) log
     (\<lambda>e. e = ServerSend operation \<or> e = Sleep 5)"
proof (induction n arbitrary: err log)
  case 0
  show ?case by (simp add: emits_refl)
next
  case (Suc n)
  show ?case
  proof (cases "answers (store_cluster store) log (ServerSend operation)")
    case None
    then show ?thesis by (simp add: emits_def)
  next
    case (Some e)
    show ?thesis
    proof (cases "err_kind e = NoLeaderError")
      case False
      with Some show ?thesis by (simp add: emits_def)
    next
      case True
      have "emits (executeWithRetries_loop store operation n (Some e)
                     (log @ [ServerSend operation, Sleep 5])) log
              (\<lambda>e. e = ServerSend operation \<or> e = Sleep 5)"
        by (rule emits_append [OF _ Suc.IH]) simp
      with Some True show ?thesis by simp
    qed
  qed
qed

lemma executeWithRetries_emits:
  "emits (executeWithRetries store operation log) log
     (\<lambda>e. e = ServerSend operation \<or> e = Sleep 5)"
  unfolding executeWithRetries_def by (rule executeWithRetries_loop_emits)

lemma maintenance_loop_emits:
  "emits (executeWithRetriesMaintenanceOperations_loop store operation n err log) log
     (\<lambda>e. e = MaintenanceSend (store_Database store) operation \<or> e = Sleep 5)"
proof (induction n arbitrary: err log)
  case 0
  show ?case by (simp add: emits_refl)
next
  case (Suc n)
  show ?case
  proof (cases "answers (store_cluster store) log
                  (MaintenanceSend (store_Database store) operation)")
    case None
    then show ?thesis by (simp add: emits_def)
  next
    case (Some e)
    have "emits (executeWithRetriesMaintenanceOperations_loop store operation n (Some e)
                   (log @ [MaintenanceSend (store_Database store) operation, Sleep 5])) log
            (\<lambda>e. e = MaintenanceSend (store_Database store) operation \<or> e = Sleep 5)"
      by (rule emits_append [OF _ Suc.IH]) simp
    with Some show ?thesis by simp
  qed
qed

lemma getDatabaseHealthCheck_emits:
  "emits (getDatabaseHealthCheck store log) log
     (\<lambda>e. e = MaintenanceSend (store_Database store) OperationDatabaseHealthCheck \<or> e = Sleep 5)"
  unfolding getDatabaseHealthCheck_def executeWithRetriesMaintenanceOperations_def
  by (rule maintenance_loop_emits)

lemma getClusterTopology_emits:
  "emits (getClusterTopology store log) log
     (\<lambda>e. e = ServerSend OperationGetClusterTopology \<or> e = Sleep 5)"
  using executeWithRetries_emits [of store OperationGetClusterTopology log]
  by (auto simp: getClusterTopology_def emits_def split: prod.splits option.splits)

lemma createDatabase_wait_emits:
  "emits (createDatabase_wait store sc n log) log
     (\<lambda>e. e = ServerSend OperationGetClusterTopology \<or> e = Sleep 5)"
proof (induction n arbitrary: log)
  case 0
  show ?case by (simp add: emits_refl)
next
  case (Suc n)
  obtain r log' where g: "getClusterTopology store log = (r, log')"
    by (cases "getClusterTopology store log")
  have first: "emits (x, log') log (\<lambda>e. e = ServerSend OperationGetClusterTopology \<or> e = Sleep 5)"
    for x :: "go_error option"
    using getClusterTopology_emits [of store log] g by (simp add: emits_def)
  show ?case
  proof (cases r)
    case (Inl e)
    with g first show ?thesis by simp
  next
    case (Inr topology)
    show ?thesis
    proof (cases "length (topology_Members topology) \<noteq> length (Url_List sc)")
      case False
      with g Inr first show ?thesis by simp
    next
      case True
      have "emits (createDatabase_wait store sc n (log' @ [Sleep 5])) log'
              (\<lambda>e. e = ServerSend OperationGetClusterTopology \<or> e = Sleep 5)"
        by (rule emits_append [OF _ Suc.IH]) simp
      then have "emits (createDatabase_wait store sc n (log' @ [Sleep 5])) log
              (\<lambda>e. e = ServerSend OperationGetClusterTopology \<or> e = Sleep 5)"
        by (rule emits_trans [OF first])
      with g Inr True show ?thesis by simp
    qed
  qed
qed

lemma createDatabase_emits:
  "emits (createDatabase store sc dbRecord repFactor log) log
     (\<lambda>e. e = ServerSend OperationGetClusterTopology \<or> e = Sleep 5
          \<or> e = ServerSend (CreateDatabaseOperation dbRecord repFactor))"
proof -
  let ?P = "\<lambda>e. e = ServerSend OperationGetClusterTopology \<or> e = Sleep 5
          \<or> e = ServerSend (CreateDatabaseOperation dbRecord repFactor)"
  obtain r log' where w: "createDatabase_wait store sc NUMBER_OF_RETRIES log = (r, log')"
    by (cases "createDatabase_wait store sc NUMBER_OF_RETRIES log")
  have first: "emits (x, log') log ?P" for x :: "go_error option"
    using createDatabase_wait_emits [of store sc NUMBER_OF_RETRIES log] w
    by (auto simp: emits_def list_all_iff)
  obtain r2 log2 where
    x: "executeWithRetries store (CreateDatabaseOperation dbRecord repFactor) log' = (r2, log2)"
    by (cases "executeWithRetries store (CreateDatabaseOperation dbRecord repFactor) log'")
  have "emits (y, log2) log' ?P" for y :: "go_error option"
    using executeWithRetries_emits [of store "CreateDatabaseOperation dbRecord repFactor" log'] x
    by (auto simp: emits_def list_all_iff)
  then have second: "emits (y, log2) log ?P" for y :: "go_error option"
    by (rule emits_trans [OF first])
  show ?thesis
    using w x first second
    by (simp add: createDatabase_def split: option.splits)
qed

lemma addDatabaseNode_emits:
  "emits (addDatabaseNode store name nodes log) log (\<lambda>e. \<not> phased e \<or> phase e = 2)"
proof (induction nodes arbitrary: log)
  case Nil
  show ?case by (simp add: emits_refl)
next
  case (Cons node nodes)
  obtain r log' where x: "executeWithRetries store (OperationAddDatabaseNode name node) log = (r, log')"
    by (cases "executeWithRetries store (OperationAddDatabaseNode name node) log")
  have "emits (executeWithRetries store (OperationAddDatabaseNode name node) log) log
          (\<lambda>e. \<not> phased e \<or> phase e = 2)"
    by (rule emits_mono [OF executeWithRetries_emits]) auto
  then have first: "emits (y, log') log (\<lambda>e. \<not> phased e \<or> phase e = 2)" for y :: "go_error option"
    using x by (simp add: emits_def)
  have "emits (addDatabaseNode store name nodes log') log (\<lambda>e. \<not> phased e \<or> phase e = 2)"
    by (rule emits_trans [OF first Cons.IH])
  with x first show ?case by (simp split: option.splits)
qed

lemma modifyDatabase_emits:
  "emits (modifyDatabase lib store dbRecord log) log (\<lambda>e. \<not> phased e \<or> phase e = 2)"
proof -
  let ?P = "\<lambda>e. \<not> phased e \<or> phase e = 2"
  let ?name = "rec_DatabaseName dbRecord"
  let ?log1 = "log @ [GetDatabaseTopologyCommand ?name]"
  have first: "emits (y, ?log1) log ?P" for y :: "failure option"
    by (simp add: emits_def)
  show ?thesis
  proof (cases "database_nodes (store_cluster store) log ?name")
    case None
    then show ?thesis using first by (simp add: modifyDatabase_def Let_def)
  next
    case (Some nodes)
    show ?thesis
    proof (cases "rec_DatabaseTopology dbRecord")
      case None
      with Some show ?thesis using first by (simp add: modifyDatabase_def Let_def)
    next
      case topology: (Some topology)
      obtain rmDbInTags members where
        d: "member_delta lib nodes [] (Members topology) = (rmDbInTags, members)"
        by (cases "member_delta lib nodes [] (Members topology)")
      let ?del = "if rmDbInTags \<noteq> []
                  then executeWithRetries store
                         (DeleteDatabasesOperationWithParameters [?name] True rmDbInTags) ?log1
                  else (None, ?log1)"
      obtain r2 log2 where del: "?del = (r2, log2)" by (cases ?del)
      have "emits ?del ?log1 ?P"
      proof (cases "rmDbInTags \<noteq> []")
        case True
        have "emits (executeWithRetries store
                (DeleteDatabasesOperationWithParameters [?name] True rmDbInTags) ?log1) ?log1 ?P"
          by (rule emits_mono [OF executeWithRetries_emits]) auto
        with True show ?thesis by simp
      next
        case False
        then show ?thesis by (simp add: emits_refl)
      qed
      with del have "emits (y, log2) ?log1 ?P" for y :: "failure option"
        by (simp add: emits_def)
      then have second: "emits (y, log2) log ?P" for y :: "failure option"
        by (rule emits_trans [OF first])
      obtain r3 log3 where add: "addDatabaseNode store ?name members log2 = (r3, log3)"
        by (cases "addDatabaseNode store ?name members log2")
      have "emits (y, log3) log2 ?P" for y :: "failure option"
        using addDatabaseNode_emits [of store ?name members log2] add by (simp add: emits_def)
      then have third: "emits (y, log3) log ?P" for y :: "failure option"
        by (rule emits_trans [OF second])
      show ?thesis
        using Some topology d del add second third
        by (simp add: modifyDatabase_def Let_def split: option.splits)
    qed
  qed
qed

lemma distribute_keys_emits:
  "emits (distribute_keys lib store dbs log) log (\<lambda>e. \<not> phased e \<or> phase e = 2)"
proof (induction dbs arbitrary: log)
  case Nil
  show ?case by (simp add: emits_refl)
next
  case (Cons database rest)
  let ?P = "\<lambda>e. \<not> phased e \<or> phase e = 2"
  show ?case
  proof (cases "length (strings_TrimSpace lib (Key database)) > 0")
    case False
    then show ?thesis using Cons.IH by simp
  next
    case True
    obtain r log' where x: "distributeSecretKey store database log = (r, log')"
      by (cases "distributeSecretKey store database log")
    have "emits (distributeSecretKey store database log) log ?P"
      unfolding distributeSecretKey_def by (rule emits_mono [OF executeWithRetries_emits]) auto
    then have first: "emits (y, log') log ?P" for y :: "go_error option"
      using x by (simp add: emits_def)
    have "emits (distribute_keys lib store rest log') log ?P"
      by (rule emits_trans [OF first Cons.IH])
    with True x first show ?thesis by (simp split: option.splits)
  qed
qed

lemma createDatabase_declared_emits:
  assumes "rec_DatabaseTopology dbRecord \<noteq> None"
  shows "emits (createDatabase store sc dbRecord repFactor log) log
           (\<lambda>e. \<not> phased e \<or> phase e = 2)"
  by (rule emits_mono [OF createDatabase_emits]) (use assms in auto)

lemma create_loop_emits:
  "\<forall>(database, databaseRecord) \<in> set pairs. rec_DatabaseTopology databaseRecord \<noteq> None \<Longrightarrow>
   emits (create_loop lib store sc pairs log) log (\<lambda>e. \<not> phased e \<or> phase e = 2)"
proof (induction pairs arbitrary: log)
  case Nil
  show ?case by (simp add: emits_refl)
next
  case (Cons pair rest)
  let ?P = "\<lambda>e. \<not> phased e \<or> phase e = 2"
  obtain database databaseRecord where pair: "pair = (database, databaseRecord)"
    by (cases pair)
  with Cons.prems have topology: "rec_DatabaseTopology databaseRecord \<noteq> None"
    and rest: "\<forall>(database, databaseRecord) \<in> set rest. rec_DatabaseTopology databaseRecord \<noteq> None"
    by auto
  define dbRecord where
    "dbRecord = (if length (strings_TrimSpace lib (Key database)) > 0 then databaseRecord
                 else databaseRecord\<lparr>Encrypted := False\<rparr>)"
  have topology': "rec_DatabaseTopology dbRecord \<noteq> None"
    using topology by (simp add: dbRecord_def)
  obtain r1 log1 where c: "createDatabase store sc dbRecord 0 log = (r1, log1)"
    by (cases "createDatabase store sc dbRecord 0 log")
  have first: "emits (y, log1) log ?P" for y :: "failure option"
    using createDatabase_declared_emits [OF topology', of store sc 0 log] c
    by (simp add: emits_def)
  obtain r2 log2 where m: "modifyDatabase lib store dbRecord log1 = (r2, log2)"
    by (cases "modifyDatabase lib store dbRecord log1")
  have "emits (y, log2) log1 ?P" for y :: "failure option"
    using modifyDatabase_emits [of lib store dbRecord log1] m by (simp add: emits_def)
  then have second: "emits (y, log2) log ?P" for y :: "failure option"
    by (rule emits_trans [OF first])
  have third: "emits (create_loop lib store sc rest log2) log ?P"
    by (rule emits_trans [OF second Cons.IH [OF rest]])
  show ?case
    using pair c m first second third
    by (simp add: dbRecord_def split: option.splits if_splits)
qed

lemma createDatabases_emits:
  "emits (createDatabases lib store sc log) log (\<lambda>e. \<not> phased e \<or> phase e = 2)"
proof -
  let ?P = "\<lambda>e. \<not> phased e \<or> phase e = 2"
  obtain r log' where k: "distribute_keys lib store (Databases sc) log = (r, log')"
    by (cases "distribute_keys lib store (Databases sc) log")
  have first: "emits (y, log') log ?P" for y :: "failure option"
    using distribute_keys_emits [of lib store "Databases sc" log] k by (simp add: emits_def)
  have "\<forall>(database, databaseRecord) \<in> set (zip (Databases sc) (map databaseRecord_of (Databases sc))).
          rec_DatabaseTopology databaseRecord \<noteq> None"
    by (auto simp: databaseRecord_of_def dest!: set_zip_rightD)
  then have "emits (create_loop lib store sc
                 (zip (Databases sc) (map databaseRecord_of (Databases sc))) log') log' ?P"
    by (rule create_loop_emits)
  then have "emits (create_loop lib store sc
                 (zip (Databases sc) (map databaseRecord_of (Databases sc))) log') log ?P"
    by (rule emits_trans [OF first])
  with k first show ?thesis
    by (simp add: createDatabases_def Let_def split: option.splits)
qed

lemma deleteDatabases_loop_emits:
  "emits (deleteDatabases_loop store dbs log) log (\<lambda>e. \<not> phased e \<or> phase e = 1)"
proof (induction dbs arbitrary: log)
  case Nil
  show ?case by (simp add: emits_refl)
next
  case (Cons db rest)
  let ?ev = "ServerSend (DeleteDatabasesOperation (dd_Name db) (HardDelete db))"
  have "emits (deleteDatabases_loop store rest (log @ [?ev])) log
          (\<lambda>e. \<not> phased e \<or> phase e = 1)"
    by (rule emits_append [OF _ Cons.IH]) simp
  then show ?case
    by (simp add: deleteDatabase_def Let_def emits_def split: option.splits)
qed

lemma deleteIndexes_names_emits:
  "emits (deleteIndexes_names store db names log) log (\<lambda>e. \<not> phased e \<or> phase e = 3)"
proof (induction names arbitrary: log)
  case Nil
  show ?case by (simp add: emits_refl)
next
  case (Cons indexName rest)
  let ?ev = "MaintenanceSend db (DeleteIndexOperation indexName)"
  have "emits (deleteIndexes_names store db rest (log @ [?ev])) log
          (\<lambda>e. \<not> phased e \<or> phase e = 3)"
    by (rule emits_append [OF _ Cons.IH]) simp
  then show ?case
    by (simp add: Let_def emits_def split: option.splits)
qed

lemma deleteIndexes_loop_emits:
  "emits (deleteIndexes_loop store structs log) log (\<lambda>e. \<not> phased e \<or> phase e = 3)"
proof (induction structs arbitrary: log)
  case Nil
  show ?case by (simp add: emits_refl)
next
  case (Cons indexStruct rest)
  let ?P = "\<lambda>e. \<not> phased e \<or> phase e = 3"
  obtain r log' where
    x: "deleteIndexes_names store (DatabaseName indexStruct) (IndexesNames indexStruct) log = (r, log')"
    by (cases "deleteIndexes_names store (DatabaseName indexStruct) (IndexesNames indexStruct) log")
  have first: "emits (y, log') log ?P" for y :: "go_error option"
    using deleteIndexes_names_emits [of store "DatabaseName indexStruct" "IndexesNames indexStruct" log] x
    by (simp add: emits_def)
  have "emits (deleteIndexes_loop store rest log') log ?P"
    by (rule emits_trans [OF first Cons.IH])
  with x first show ?case by (simp split: option.splits)
qed

lemma createIndexes_indexes_emits:
  "emits (createIndexes_indexes store db idxs indexDefinition log) log
     (\<lambda>e. \<not> phased e \<or> phase e = 4)"
proof (induction idxs arbitrary: indexDefinition log)
  case Nil
  show ?case by (simp add: emits_refl)
next
  case (Cons idx rest)
  let ?d = "indexDefinition\<lparr>def_Name := IndexName idx,
                            def_Maps := def_Maps indexDefinition @ Maps idx,
                            def_Reduce := Some (Reduce idx),
                            def_Configuration := Configuration idx\<rparr>"
  let ?ev = "MaintenanceSend db (PutIndexesOperation ?d)"
  have "emits (createIndexes_indexes store db rest ?d (log @ [?ev])) log
          (\<lambda>e. \<not> phased e \<or> phase e = 4)"
    by (rule emits_append [OF _ Cons.IH]) simp
  then show ?case
    by (simp add: Let_def emits_def split: option.splits)
qed

lemma createIndexes_loop_emits:
  "emits (createIndexes_loop store dbs indexDefinition log) log
     (\<lambda>e. \<not> phased e \<or> phase e = 4)"
proof (induction dbs arbitrary: indexDefinition log)
  case Nil
  show ?case by (simp add: emits_refl)
next
  case (Cons database rest)
  let ?P = "\<lambda>e. \<not> phased e \<or> phase e = 4"
  obtain r d log' where
    x: "createIndexes_indexes store (db_Name database) (Indexes database) indexDefinition log
          = ((r, d), log')"
    by (cases "createIndexes_indexes store (db_Name database) (Indexes database) indexDefinition log")
       auto
  have first: "emits (y, log') log ?P" for y :: "go_error option"
    using createIndexes_indexes_emits [of store "db_Name database" "Indexes database" indexDefinition log] x
    by (simp add: emits_def)
  have "emits (createIndexes_loop store rest d log') log ?P"
    by (rule emits_trans [OF first Cons.IH])
  with x first show ?case by (simp split: option.splits)
qed

lemma Deploy_healthcheck_emits:
  "emits (Deploy_healthcheck store sc log) log (\<lambda>e. \<not> phased e \<or> phase e = 0)"
proof -
  let ?P = "\<lambda>e. \<not> phased e \<or> phase e = 0"
  obtain r log' where h: "getDatabaseHealthCheck store log = (r, log')"
    by (cases "getDatabaseHealthCheck store log")
  have "emits (getDatabaseHealthCheck store log) log ?P"
    by (rule emits_mono [OF getDatabaseHealthCheck_emits]) auto
  then have first: "emits (y, log') log ?P" for y :: "go_error option"
    using h by (simp add: emits_def)
  have "emits (createDatabase store sc (healthcheck_record sc) (length (Hosts sc)) log') log' ?P"
    by (rule emits_mono [OF createDatabase_emits]) (auto simp: healthcheck_record_def)
  then have "emits (createDatabase store sc (healthcheck_record sc) (length (Hosts sc)) log') log ?P"
    by (rule emits_trans [OF first])
  with h first show ?thesis
    by (simp add: Deploy_healthcheck_def split: option.splits)
qed

lemma ordered_upto_step:
  assumes "ordered_upto r log" and "r \<le> r'"
    and "emits res log (\<lambda>e. \<not> phased e \<or> phase e = r')"
  shows "ordered_upto r' (snd res)"
proof -
  from assms(3) obtain evs where res: "snd res = log @ evs"
    and evs: "\<forall>e \<in> set evs. \<not> phased e \<or> phase e = r'"
    by (auto simp: emits_def list_all_iff)
  from assms(1) have s: "sorted (map phase (filter phased log))"
    and below: "\<forall>e \<in> set log. \<not> phased e \<or> phase e \<le> r"
    by (auto simp: ordered_upto_def list_all_iff)
  have new: "sorted (map phase (filter phased evs))"
    using evs by (induction evs) auto
  have "sorted (map phase (filter phased log) @ map phase (filter phased evs))"
    unfolding sorted_append using s new below evs assms(2) by fastforce
  moreover have "\<forall>e \<in> set (log @ evs). \<not> phased e \<or> phase e \<le> r'"
    using below evs assms(2) by fastforce
  ultimately show ?thesis
    by (simp add: ordered_upto_def res list_all_iff)
qed

lemma ordered_upto_sorted: "ordered_upto r log \<Longrightarrow> sorted (map phase (filter phased log))"
  by (simp add: ordered_upto_def)

lemma is_probe_phase: "is_probe e \<Longrightarrow> phased e \<and> phase e = 0"
  by (induction e rule: is_probe.induct) auto

lemma executeWithRetries_first:
  "prefix (log @ [ServerSend operation]) (snd (executeWithRetries store operation log))"
proof (cases "answers (store_cluster store) log (ServerSend operation)")
  case None
  then show ?thesis by (simp add: executeWithRetries_def NUMBER_OF_RETRIES_Suc)
next
  case (Some e)
  show ?thesis
  proof (cases "err_kind e = NoLeaderError")
    case False
    with Some show ?thesis by (simp add: executeWithRetries_def NUMBER_OF_RETRIES_Suc)
  next
    case True
    let ?log' = "log @ [ServerSend operation, Sleep 5]"
    from executeWithRetries_loop_emits [of store operation 4 "Some e" ?log']
    obtain evs where "snd (executeWithRetries_loop store operation 4 (Some e) ?log') = ?log' @ evs"
      by (auto simp: emits_def)
    then have "prefix (log @ [ServerSend operation])
                 (snd (executeWithRetries_loop store operation 4 (Some e) ?log'))"
      by (simp add: prefix_def)
    moreover have "executeWithRetries store operation log
                     = executeWithRetries_loop store operation 4 (Some e) ?log'"
      using Some True by (simp add: executeWithRetries_def NUMBER_OF_RETRIES_def eval_nat_numeral)
    ultimately show ?thesis by simp
  qed
qed

lemma emits_prefix: "emits res log P \<Longrightarrow> prefix log (snd res)"
  by (auto simp: emits_def prefix_def)

text \<open>
  Claim C4, as the code has it. In every run of \<open>Deploy\<close>, on every cluster and for every
  configuration, the requests come in the order of the phases: the health check, then
  every deletion of a declared-to-delete database, then every call that creates or
  modifies a declared database, then every deletion of an index, then every creation of
  an index. Each phase is over before the next begins.
\<close>

theorem Deploy_phase_order:
  "sorted (map phase (filter phased (snd (Deploy lib cl sc par))))"
proof (cases "ClusterSetupZip sc CREDENTIALS_FOR_SECURE_STORE_FIELD_NAME")
  case None
  then show ?thesis by (simp add: Deploy_def)
next
  case (Some holder)
  show ?thesis
  proof (cases "getStore lib cl sc holder")
    case (Inl e)
    with Some show ?thesis by (simp add: Deploy_def)
  next
    case (Inr store)
    obtain r1 log1 where t: "getClusterTopology store [] = (r1, log1)"
      by (cases "getClusterTopology store []")
    obtain r2 log2 where h: "Deploy_healthcheck store sc log1 = (r2, log2)"
      by (cases "Deploy_healthcheck store sc log1")
    obtain r3 log3 where dd: "deleteDatabases store sc log2 = (r3, log3)"
      by (cases "deleteDatabases store sc log2")
    obtain r4 log4 where cd: "createDatabases lib store sc log3 = (r4, log4)"
      by (cases "createDatabases lib store sc log3")
    obtain r5 log5 where di: "deleteIndexes store sc log4 = (r5, log5)"
      by (cases "deleteIndexes store sc log4")
    obtain r6 log6 where ci: "createIndexes store sc log5 = (r6, log6)"
      by (cases "createIndexes store sc log5")
    have o0: "ordered_upto 0 []" by (simp add: ordered_upto_def)
    have e0: "emits (getClusterTopology store []) [] (\<lambda>e. \<not> phased e \<or> phase e = 0)"
      by (rule emits_mono [OF getClusterTopology_emits]) auto
    have "ordered_upto 0 (snd (getClusterTopology store []))"
      by (rule ordered_upto_step [OF o0 _ e0]) simp
    with t have o1: "ordered_upto 0 log1" by simp
    have "ordered_upto 0 (snd (Deploy_healthcheck store sc log1))"
      by (rule ordered_upto_step [OF o1 _ Deploy_healthcheck_emits]) simp
    with h have o2: "ordered_upto 0 log2" by simp
    have "ordered_upto 1 (snd (deleteDatabases store sc log2))"
      unfolding deleteDatabases_def
      by (rule ordered_upto_step [OF o2 _ deleteDatabases_loop_emits]) simp
    with dd have o3: "ordered_upto 1 log3" by simp
    have "ordered_upto 2 (snd (createDatabases lib store sc log3))"
      by (rule ordered_upto_step [OF o3 _ createDatabases_emits]) simp
    with cd have o4: "ordered_upto 2 log4" by simp
    have "ordered_upto 3 (snd (deleteIndexes store sc log4))"
      unfolding deleteIndexes_def
      by (rule ordered_upto_step [OF o4 _ deleteIndexes_loop_emits]) simp
    with di have o5: "ordered_upto 3 log5" by simp
    have "ordered_upto 4 (snd (createIndexes store sc log5))"
      unfolding createIndexes_def
      by (rule ordered_upto_step [OF o5 _ createIndexes_loop_emits]) simp
    with ci have o6: "ordered_upto 4 log6" by simp
    note sorted = o1 [THEN ordered_upto_sorted] o2 [THEN ordered_upto_sorted]
      o3 [THEN ordered_upto_sorted] o4 [THEN ordered_upto_sorted]
      o5 [THEN ordered_upto_sorted] o6 [THEN ordered_upto_sorted]
    show ?thesis
      using Some Inr t h dd cd di ci sorted
      by (simp add: Deploy_def split: sum.splits option.splits)
  qed
qed

lemmas run_defs = Deploy_def getStore_def getClusterTopology_def Deploy_healthcheck_def
  getDatabaseHealthCheck_def executeWithRetries_def executeWithRetriesMaintenanceOperations_def
  NUMBER_OF_RETRIES_Suc createDatabase_def deleteDatabases_def deleteDatabase_def
  createDatabases_def deleteIndexes_def createIndexes_def NewIndexDefinition_def
  healthcheck_record_def databaseRecord_of_def distributeSecretKey_def
  CREDENTIALS_FOR_SECURE_STORE_FIELD_NAME_def Let_def

lemma recreate_run:
  "Deploy ascii_strings calm_cluster recreate_config False
     = (Inr ''t1'',
        [ServerSend OperationGetClusterTopology,
         MaintenanceSend ''health'' OperationDatabaseHealthCheck,
         ServerSend (DeleteDatabasesOperation ''orders'' True),
         ServerSend OperationGetClusterTopology,
         ServerSend (CreateDatabaseOperation
           \<lparr>rec_DatabaseName = ''orders'', rec_Settings = Map.empty, Encrypted = False,
            rec_DatabaseTopology = Some \<lparr>Members = [''A''], ReplicationFactor = 1,
                                          DynamicNodesDistribution = False\<rparr>\<rparr> 0),
         MaintenanceSend ''orders'' (DeleteIndexOperation ''ByDay''),
         MaintenanceSend ''orders'' (PutIndexesOperation
           \<lparr>def_Name = ''ByDay'', def_Maps = [''map''], def_Reduce = Some [],
            def_Configuration = Map.empty\<rparr>)])"
  by (simp add: run_defs recreate_config_def calm_cluster_def empty_topology_def orders_db_def
        by_day_def shared_bundle_def trim_health trim_empty)

lemma unprobed_run:
  "Deploy ascii_strings unprobed_cluster recreate_config False
     = (Inr ''t1'',
        [ServerSend OperationGetClusterTopology,
         MaintenanceSend ''health'' OperationDatabaseHealthCheck, Sleep 5,
         MaintenanceSend ''health'' OperationDatabaseHealthCheck, Sleep 5,
         MaintenanceSend ''health'' OperationDatabaseHealthCheck, Sleep 5,
         MaintenanceSend ''health'' OperationDatabaseHealthCheck, Sleep 5,
         MaintenanceSend ''health'' OperationDatabaseHealthCheck, Sleep 5,
         ServerSend OperationGetClusterTopology,
         ServerSend (CreateDatabaseOperation
           \<lparr>rec_DatabaseName = ''health'', rec_Settings = Map.empty, Encrypted = False,
            rec_DatabaseTopology = None\<rparr> 3),
         ServerSend (DeleteDatabasesOperation ''orders'' True),
         ServerSend OperationGetClusterTopology,
         ServerSend (CreateDatabaseOperation
           \<lparr>rec_DatabaseName = ''orders'', rec_Settings = Map.empty, Encrypted = False,
            rec_DatabaseTopology = Some \<lparr>Members = [''A''], ReplicationFactor = 1,
                                          DynamicNodesDistribution = False\<rparr>\<rparr> 0),
         MaintenanceSend ''orders'' (DeleteIndexOperation ''ByDay''),
         MaintenanceSend ''orders'' (PutIndexesOperation
           \<lparr>def_Name = ''ByDay'', def_Maps = [''map''], def_Reduce = Some [],
            def_Configuration = Map.empty\<rparr>)])"
  by (simp add: run_defs recreate_config_def unprobed_cluster_def calm_cluster_def
        empty_topology_def orders_db_def missing_database_def
        by_day_def shared_bundle_def trim_health trim_empty)

theorem Deploy_phase_order_witness:
  "sorted (map phase (filter phased (snd (Deploy ascii_strings calm_cluster recreate_config False))))
   \<and> map phase (filter phased (snd (Deploy ascii_strings calm_cluster recreate_config False)))
       = [0, 1, 2, 3, 4]"
proof
  show "sorted (map phase (filter phased (snd (Deploy ascii_strings calm_cluster recreate_config False))))"
    by (rule Deploy_phase_order)
  show "map phase (filter phased (snd (Deploy ascii_strings calm_cluster recreate_config False)))
       = [0, 1, 2, 3, 4]"
    unfolding recreate_run by simp
qed

text \<open>
  A configuration that deletes and recreates the database \<open>orders\<close> and deletes one of
  its indexes: the database is created before the index is deleted.
\<close>

theorem Deploy_create_before_index_delete_counterexample:
  "\<not> deletes_before_creates (snd (Deploy ascii_strings calm_cluster recreate_config False))"
  unfolding recreate_run by simp

lemma health_store:
  "ClusterSetupZip health_config CREDENTIALS_FOR_SECURE_STORE_FIELD_NAME = Some shared_bundle"
  "getStore ascii_strings cl health_config shared_bundle
     = (case open_error cl shared_bundle of Some e \<Rightarrow> Inl e | None \<Rightarrow> Inr (store_on cl))"
  by (simp_all add: health_config_def recreate_config_def getStore_def store_on_def
        CREDENTIALS_FOR_SECURE_STORE_FIELD_NAME_def trim_health split: option.splits)

lemma recreate_store:
  "ClusterSetupZip recreate_config CREDENTIALS_FOR_SECURE_STORE_FIELD_NAME = Some shared_bundle"
  "getStore ascii_strings cl recreate_config shared_bundle
     = (case open_error cl shared_bundle of Some e \<Rightarrow> Inl e | None \<Rightarrow> Inr (store_on cl))"
  by (simp_all add: recreate_config_def getStore_def store_on_def
        CREDENTIALS_FOR_SECURE_STORE_FIELD_NAME_def trim_health split: option.splits)

text \<open>
  Claim C5, as the code has it. Let the store be open, the cluster topology read, and the
  health probe (after its attempts) end with the error \<open>err\<close>. If \<open>err\<close> is not of the
  database-does-not-exist class, the run aborts with it. If it is, then the rest of the
  run sends no probe again; once the wait for the cluster members is over, the next
  request creates the healthcheck database, unencrypted, without a topology and with the
  number of hosts as replication factor; an error of that creation aborts the run; and
  once the creation has returned without error, the run goes on from there with the later
  phases, the deletion of the declared-to-delete databases, the creation of the declared
  databases, the deletion and the creation of the indexes, and its result is theirs.
\<close>

theorem Deploy_healthcheck_missing:
  assumes "ClusterSetupZip sc CREDENTIALS_FOR_SECURE_STORE_FIELD_NAME = Some holder"
    and "getStore lib cl sc holder = Inr store"
    and "getClusterTopology store [] = (Inr clusterTopology, log1)"
    and "getDatabaseHealthCheck store log1 = (Some err, log2)"
  shows "(err_kind err \<noteq> DatabaseDoesNotExistError \<longrightarrow>
            Deploy lib cl sc par = (Inl (Err err), log2))
       \<and> (err_kind err = DatabaseDoesNotExistError \<longrightarrow>
            (\<exists>evs. snd (Deploy lib cl sc par) = log2 @ evs \<and> list_all (\<lambda>e. \<not> is_probe e) evs)
          \<and> (\<forall>log3. createDatabase_wait store sc NUMBER_OF_RETRIES log2 = (None, log3) \<longrightarrow>
                prefix (log3 @ [ServerSend (CreateDatabaseOperation
                          \<lparr>rec_DatabaseName = HealthcheckDatabase sc, rec_Settings = Map.empty,
                           Encrypted = False, rec_DatabaseTopology = None\<rparr>
                          (length (Hosts sc)))])
                       (snd (Deploy lib cl sc par)))
          \<and> (\<forall>e log3. createDatabase store sc (healthcheck_record sc) (length (Hosts sc)) log2
                         = (Some e, log3) \<longrightarrow>
                Deploy lib cl sc par = (Inl (Err e), log3))
          \<and> (\<forall>log3. createDatabase store sc (healthcheck_record sc) (length (Hosts sc)) log2
                         = (None, log3) \<longrightarrow>
                Deploy lib cl sc par =
                  (case deleteDatabases store sc log3 of
                     (Some e, log4) \<Rightarrow> (Inl (Err e), log4)
                   | (None, log4) \<Rightarrow>
                  (case createDatabases lib store sc log4 of
                     (Some f, log5) \<Rightarrow> (Inl f, log5)
                   | (None, log5) \<Rightarrow>
                  (case deleteIndexes store sc log5 of
                     (Some e, log6) \<Rightarrow> (Inl (Err e), log6)
                   | (None, log6) \<Rightarrow>
                  (case createIndexes store sc log6 of
                     (Some e, log7) \<Rightarrow> (Inl (Err e), log7)
                   | (None, log7) \<Rightarrow> (Inr (TopologyID clusterTopology), log7)))))))"
proof (intro conjI impI allI)
  assume "err_kind err \<noteq> DatabaseDoesNotExistError"
  then show "Deploy lib cl sc par = (Inl (Err err), log2)"
    using assms by (simp add: Deploy_def Deploy_healthcheck_def)
next
  assume missing: "err_kind err = DatabaseDoesNotExistError"
  let ?NP = "\<lambda>e. \<not> is_probe e"
  let ?create = "createDatabase store sc (healthcheck_record sc) (length (Hosts sc)) log2"
  have h: "Deploy_healthcheck store sc log1 = ?create"
    using assms(4) missing by (simp add: Deploy_healthcheck_def)
  obtain r3 log3 where c: "?create = (r3, log3)" by (cases ?create)
  obtain r4 log4 where dd: "deleteDatabases store sc log3 = (r4, log4)"
    by (cases "deleteDatabases store sc log3")
  obtain r5 log5 where cd: "createDatabases lib store sc log4 = (r5, log5)"
    by (cases "createDatabases lib store sc log4")
  obtain r6 log6 where di: "deleteIndexes store sc log5 = (r6, log6)"
    by (cases "deleteIndexes store sc log5")
  obtain r7 log7 where ci: "createIndexes store sc log6 = (r7, log7)"
    by (cases "createIndexes store sc log6")
  have "emits ?create log2 ?NP"
    by (rule emits_mono [OF createDatabase_emits]) auto
  with c have e3: "emits (y, log3) log2 ?NP" for y :: "failure + string"
    by (simp add: emits_def)
  have f3: "emits (y, log3) log3 ?NP" for y :: "failure + string"
    by (rule emits_refl)
  have "emits (deleteDatabases store sc log3) log3 ?NP"
    unfolding deleteDatabases_def
    by (rule emits_mono [OF deleteDatabases_loop_emits]) (auto dest: is_probe_phase)
  with dd have f4: "emits (y, log4) log3 ?NP" for y :: "failure + string"
    by (simp add: emits_def)
  have "emits (createDatabases lib store sc log4) log4 ?NP"
    by (rule emits_mono [OF createDatabases_emits]) (auto dest: is_probe_phase)
  with cd have "emits (y, log5) log4 ?NP" for y :: "failure + string"
    by (simp add: emits_def)
  then have f5: "emits (y, log5) log3 ?NP" for y :: "failure + string"
    by (rule emits_trans [OF f4])
  have "emits (deleteIndexes store sc log5) log5 ?NP"
    unfolding deleteIndexes_def
    by (rule emits_mono [OF deleteIndexes_loop_emits]) (auto dest: is_probe_phase)
  with di have "emits (y, log6) log5 ?NP" for y :: "failure + string"
    by (simp add: emits_def)
  then have f6: "emits (y, log6) log3 ?NP" for y :: "failure + string"
    by (rule emits_trans [OF f5])
  have "emits (createIndexes store sc log6) log6 ?NP"
    unfolding createIndexes_def
    by (rule emits_mono [OF createIndexes_loop_emits]) (auto dest: is_probe_phase)
  with ci have "emits (y, log7) log6 ?NP" for y :: "failure + string"
    by (simp add: emits_def)
  then have f7: "emits (y, log7) log3 ?NP" for y :: "failure + string"
    by (rule emits_trans [OF f6])
  have rest: "emits (Deploy lib cl sc par) log3 ?NP"
    using assms(1-3) h c dd cd di ci f3 f4 f5 f6 f7
    by (simp add: Deploy_def split: option.splits sum.splits)
  then have "emits (Deploy lib cl sc par) log2 ?NP"
    by (rule emits_trans [OF e3])
  then show "\<exists>evs. snd (Deploy lib cl sc par) = log2 @ evs \<and> list_all ?NP evs"
    by (simp add: emits_def)
  show "prefix (log3' @ [ServerSend (CreateDatabaseOperation
                          \<lparr>rec_DatabaseName = HealthcheckDatabase sc, rec_Settings = Map.empty,
                           Encrypted = False, rec_DatabaseTopology = None\<rparr>
                          (length (Hosts sc)))])
                       (snd (Deploy lib cl sc par))"
    if w: "createDatabase_wait store sc NUMBER_OF_RETRIES log2 = (None, log3')" for log3'
  proof -
    let ?op = "CreateDatabaseOperation (healthcheck_record sc) (length (Hosts sc))"
    have "log3 = snd (executeWithRetries store ?op log3')"
      using c w by (simp add: createDatabase_def split: prod.splits option.splits if_splits)
    then have "prefix (log3' @ [ServerSend ?op]) log3"
      using executeWithRetries_first [of log3' ?op store] by simp
    moreover have "prefix log3 (snd (Deploy lib cl sc par))"
      using rest by (rule emits_prefix)
    ultimately have "prefix (log3' @ [ServerSend ?op]) (snd (Deploy lib cl sc par))"
      by (rule prefix_order.trans)
    then show ?thesis by (simp add: healthcheck_record_def)
  qed
  show "Deploy lib cl sc par = (Inl (Err e), log3')"
    if "createDatabase store sc (healthcheck_record sc) (length (Hosts sc)) log2 = (Some e, log3')"
    for e log3'
    using that assms(1-3) h by (simp add: Deploy_def)
  show "Deploy lib cl sc par =
                  (case deleteDatabases store sc log3' of
                     (Some e, log4) \<Rightarrow> (Inl (Err e), log4)
                   | (None, log4) \<Rightarrow>
                  (case createDatabases lib store sc log4 of
                     (Some f, log5) \<Rightarrow> (Inl f, log5)
                   | (None, log5) \<Rightarrow>
                  (case deleteIndexes store sc log5 of
                     (Some e, log6) \<Rightarrow> (Inl (Err e), log6)
                   | (None, log6) \<Rightarrow>
                  (case createIndexes store sc log6 of
                     (Some e, log7) \<Rightarrow> (Inl (Err e), log7)
                   | (None, log7) \<Rightarrow> (Inr (TopologyID clusterTopology), log7)))))"
    if "createDatabase store sc (healthcheck_record sc) (length (Hosts sc)) log2 = (None, log3')"
    for log3'
    using that assms(1-3) h by (simp add: Deploy_def)
qed

theorem Deploy_healthcheck_missing_witness:
  "Deploy ascii_strings unprobed_cluster recreate_config False
     = (Inr ''t1'',
        [ServerSend OperationGetClusterTopology,
         MaintenanceSend ''health'' OperationDatabaseHealthCheck, Sleep 5,
         MaintenanceSend ''health'' OperationDatabaseHealthCheck, Sleep 5,
         MaintenanceSend ''health'' OperationDatabaseHealthCheck, Sleep 5,
         MaintenanceSend ''health'' OperationDatabaseHealthCheck, Sleep 5,
         MaintenanceSend ''health'' OperationDatabaseHealthCheck, Sleep 5,
         ServerSend OperationGetClusterTopology,
         ServerSend (CreateDatabaseOperation
           \<lparr>rec_DatabaseName = ''health'', rec_Settings = Map.empty, Encrypted = False,
            rec_DatabaseTopology = None\<rparr> 3),
         ServerSend (DeleteDatabasesOperation ''orders'' True),
         ServerSend OperationGetClusterTopology,
         ServerSend (CreateDatabaseOperation
           \<lparr>rec_DatabaseName = ''orders'', rec_Settings = Map.empty, Encrypted = False,
            rec_DatabaseTopology = Some \<lparr>Members = [''A''], ReplicationFactor = 1,
                                          DynamicNodesDistribution = False\<rparr>\<rparr> 0),
         MaintenanceSend ''orders'' (DeleteIndexOperation ''ByDay''),
         MaintenanceSend ''orders'' (PutIndexesOperation
           \<lparr>def_Name = ''ByDay'', def_Maps = [''map''], def_Reduce = Some [],
            def_Configuration = Map.empty\<rparr>)])
   \<and> Deploy ascii_strings broken_cluster health_config False
     = (Inl (Err timeout_error),
        [ServerSend OperationGetClusterTopology,
         MaintenanceSend ''health'' OperationDatabaseHealthCheck, Sleep 5,
         MaintenanceSend ''health'' OperationDatabaseHealthCheck, Sleep 5,
         MaintenanceSend ''health'' OperationDatabaseHealthCheck, Sleep 5,
         MaintenanceSend ''health'' OperationDatabaseHealthCheck, Sleep 5,
         MaintenanceSend ''health'' OperationDatabaseHealthCheck, Sleep 5])"
proof
  let ?probe = "MaintenanceSend ''health'' OperationDatabaseHealthCheck"
  let ?log1 = "[ServerSend OperationGetClusterTopology]"
  let ?log2 = "[ServerSend OperationGetClusterTopology, ?probe, Sleep 5, ?probe, Sleep 5,
                ?probe, Sleep 5, ?probe, Sleep 5, ?probe, Sleep 5]"
  {
    let ?store = "store_on unprobed_cluster"
    have store: "getStore ascii_strings unprobed_cluster recreate_config shared_bundle = Inr ?store"
      by (simp add: recreate_store unprobed_cluster_def calm_cluster_def)
    have topology: "getClusterTopology ?store [] = (Inr empty_topology, ?log1)"
      by (simp add: getClusterTopology_def executeWithRetries_def NUMBER_OF_RETRIES_Suc
            store_on_def unprobed_cluster_def calm_cluster_def)
    have probe: "getDatabaseHealthCheck ?store ?log1 = (Some missing_database, ?log2)"
      by (simp add: getDatabaseHealthCheck_def executeWithRetriesMaintenanceOperations_def
            NUMBER_OF_RETRIES_Suc store_on_def unprobed_cluster_def calm_cluster_def)
    have kind: "err_kind missing_database = DatabaseDoesNotExistError"
      by (simp add: missing_database_def)
    have create: "createDatabase ?store recreate_config (healthcheck_record recreate_config)
                    (length (Hosts recreate_config)) ?log2
                  = (None, ?log2 @ [ServerSend OperationGetClusterTopology,
                       ServerSend (CreateDatabaseOperation
                         \<lparr>rec_DatabaseName = ''health'', rec_Settings = Map.empty,
                          Encrypted = False, rec_DatabaseTopology = None\<rparr> 3)])"
      by (simp add: createDatabase_def NUMBER_OF_RETRIES_Suc getClusterTopology_def
            executeWithRetries_def healthcheck_record_def
            store_on_def unprobed_cluster_def calm_cluster_def empty_topology_def
            recreate_config_def)
    from Deploy_healthcheck_missing [OF recreate_store(1) store topology probe, of False,
           THEN conjunct2, THEN mp, OF kind, THEN conjunct2, THEN conjunct2, THEN conjunct2,
           THEN spec, THEN mp, OF create]
    show "Deploy ascii_strings unprobed_cluster recreate_config False
     = (Inr ''t1'',
        [ServerSend OperationGetClusterTopology, ?probe, Sleep 5, ?probe, Sleep 5,
         ?probe, Sleep 5, ?probe, Sleep 5, ?probe, Sleep 5,
         ServerSend OperationGetClusterTopology,
         ServerSend (CreateDatabaseOperation
           \<lparr>rec_DatabaseName = ''health'', rec_Settings = Map.empty, Encrypted = False,
            rec_DatabaseTopology = None\<rparr> 3),
         ServerSend (DeleteDatabasesOperation ''orders'' True),
         ServerSend OperationGetClusterTopology,
         ServerSend (CreateDatabaseOperation
           \<lparr>rec_DatabaseName = ''orders'', rec_Settings = Map.empty, Encrypted = False,
            rec_DatabaseTopology = Some \<lparr>Members = [''A''], ReplicationFactor = 1,
                                          DynamicNodesDistribution = False\<rparr>\<rparr> 0),
         MaintenanceSend ''orders'' (DeleteIndexOperation ''ByDay''),
         MaintenanceSend ''orders'' (PutIndexesOperation
           \<lparr>def_Name = ''ByDay'', def_Maps = [''map''], def_Reduce = Some [],
            def_Configuration = Map.empty\<rparr>)])"
      by (simp add: run_defs recreate_config_def store_on_def unprobed_cluster_def
            calm_cluster_def empty_topology_def orders_db_def by_day_def trim_empty)
  }
  {
    have store: "getStore ascii_strings broken_cluster health_config shared_bundle = Inr (store_on broken_cluster)"
      by (simp add: health_store broken_cluster_def calm_cluster_def)
    have topology: "getClusterTopology (store_on broken_cluster) [] = (Inr empty_topology, ?log1)"
      by (simp add: getClusterTopology_def executeWithRetries_def NUMBER_OF_RETRIES_Suc
            store_on_def broken_cluster_def calm_cluster_def)
    have probe: "getDatabaseHealthCheck (store_on broken_cluster) ?log1 = (Some timeout_error, ?log2)"
      by (simp add: getDatabaseHealthCheck_def executeWithRetriesMaintenanceOperations_def
            NUMBER_OF_RETRIES_Suc store_on_def broken_cluster_def calm_cluster_def)
    have kind: "err_kind timeout_error \<noteq> DatabaseDoesNotExistError"
      by (simp add: timeout_error_def)
    from Deploy_healthcheck_missing [OF health_store(1) store topology probe, of False,
           THEN conjunct1, THEN mp, OF kind]
    show "Deploy ascii_strings broken_cluster health_config False = (Inl (Err timeout_error), ?log2)" .
  }
qed

text \<open>
  On a cluster without the healthcheck database the run creates it, goes through the later
  phases and ends with success, and no probe follows the creation.
\<close>

theorem Deploy_no_second_probe_counterexample:
  "fst (Deploy ascii_strings unprobed_cluster recreate_config False) = Inr ''t1''
   \<and> \<not> probe_after_create ''health'' (snd (Deploy ascii_strings unprobed_cluster recreate_config False))"
  unfolding unprobed_run by simp

section \<open>Reading the state of the fleet: results\<close>

lemma read_hosts_length:
  "length (fst (read_hosts env sc ps (arr, errs))) = length arr"
proof (induction ps arbitrary: arr errs)
  case Nil
  show ?case by simp
next
  case (Cons p ps)
  obtain ip i where p: "p = (ip, i)" by (cases p)
  obtain ns r where rs: "ReadServer env sc ip i = (ns, r)" by (cases "ReadServer env sc ip i")
  show ?case
    using p rs Cons.IH by (simp add: Let_def split: option.splits)
qed

lemma read_hosts_untouched:
  "i \<notin> snd ` set ps \<Longrightarrow> fst (read_hosts env sc ps (arr, errs)) ! i = arr ! i"
proof (induction ps arbitrary: arr errs)
  case Nil
  show ?case by simp
next
  case (Cons p ps)
  obtain ip j where p: "p = (ip, j)" by (cases p)
  with Cons.prems have ne: "j \<noteq> i" and rest: "i \<notin> snd ` set ps" by auto
  obtain ns r where rs: "ReadServer env sc ip j = (ns, r)" by (cases "ReadServer env sc ip j")
  show ?case
    using p rs ne Cons.IH [OF rest] by (simp add: Let_def split: option.splits)
qed

lemma read_hosts_unreachable:
  assumes "ReadServer env sc ip i = (ns, Some e)"
    and "strings_Contains (err_text e) ''Unable to SSH to''"
  shows "distinct (map snd ps) \<Longrightarrow> (ip, i) \<in> set ps \<Longrightarrow>
         fst (read_hosts env sc ps (arr, errs)) ! i = arr ! i"
proof (induction ps arbitrary: arr errs)
  case Nil
  then show ?case by simp
next
  case (Cons p ps)
  obtain ip' j where p: "p = (ip', j)" by (cases p)
  from Cons.prems(1) p have fresh: "j \<notin> snd ` set ps" and d: "distinct (map snd ps)"
    by auto
  show ?case
  proof (cases "j = i")
    case True
    with fresh Cons.prems(2) p have same: "ip' = ip"
      by (metis image_eqI set_ConsD snd_conv prod.inject)
    have "fst (read_hosts env sc (p # ps) (arr, errs)) = fst (read_hosts env sc ps (arr, errs))"
      using p True same assms by (simp add: Let_def)
    moreover have "fst (read_hosts env sc ps (arr, errs)) ! i = arr ! i"
      using fresh True by (simp add: read_hosts_untouched)
    ultimately show ?thesis by simp
  next
    case False
    with Cons.prems(2) p have mem: "(ip, i) \<in> set ps" by auto
    obtain ns' r where rs: "ReadServer env sc ip' j = (ns', r)"
      by (cases "ReadServer env sc ip' j")
    show ?thesis
      using p rs False Cons.IH [OF d mem] by (simp add: Let_def split: option.splits)
  qed
qed

text \<open>
  Claim C3, against the code. When the fleet read returns the array of node states and
  the read of the host at index \<open>i\<close> ended with an error that contains the marker
  \<open>Unable to SSH to\<close>, the array has one entry per host, and the entry at \<open>i\<close> is the
  zero node state: its \<open>Failed\<close> is false. The task sets \<open>Failed\<close> in its own copy
  and returns before the store into the array.
\<close>

theorem readRavenDbInstances_unreachable_entry:
  assumes "i < length (Hosts sc)"
    and "ReadServer env sc (Hosts sc ! i) i = (ns, Some e)"
    and "strings_Contains (err_text e) ''Unable to SSH to''"
    and "readRavenDbInstances env sc = Inr nodes"
  shows "length nodes = length (Hosts sc) \<and> nodes ! i = zero_NodeState
       \<and> Failed (nodes ! i) = False"
proof -
  let ?ps = "zip (Hosts sc) [0 ..< length (Hosts sc)]"
  let ?arr = "replicate (length (Hosts sc)) zero_NodeState"
  have nodes: "nodes = fst (read_hosts env sc ?ps (?arr, []))"
    using assms(4) by (simp add: readRavenDbInstances_def split: prod.splits if_splits)
  have d: "distinct (map snd ?ps)" by simp
  have mem: "(Hosts sc ! i, i) \<in> set ?ps"
    using assms(1) by (auto simp: set_zip intro!: exI [of _ i])
  have "nodes ! i = ?arr ! i"
    unfolding nodes using assms(2,3) d mem by (rule read_hosts_unreachable)
  then have entry: "nodes ! i = zero_NodeState"
    using assms(1) by simp
  have "length nodes = length (Hosts sc)"
    unfolding nodes by (simp add: read_hosts_length)
  with entry show ?thesis by (simp add: zero_NodeState_def)
qed

lemma connect_refused:
  assumes "\<forall>j. isl (d j)"
  shows "\<exists>e. fst (ConnectToRemoteWithRetry d ssh ip conn) = Inl e
           \<and> strings_Contains (err_text e) ''Unable to SSH to''"
proof -
  let ?hp = "net_JoinHostPort ip (strconv_Itoa (getPort ssh))"
  let ?t = "'' '' @ ?hp @ '' because '' @ err_text (projl (d NUMBER_OF_RETRIES))"
  from assms have "\<forall>j. 0 \<le> j \<and> j \<le> NUMBER_OF_RETRIES \<longrightarrow> isl (d j)" by simp
  from connect_loop_failure [OF this, where i = 0 and conn = conn and evs = "[]" and hp = ?hp]
  have t: "fst (ConnectToRemoteWithRetry d ssh ip conn)
             = Inl (errors_New (''Unable to SSH to'' @ ?t))"
    by (simp add: ConnectToRemoteWithRetry_def)
  have "strings_Contains (''Unable to SSH to'' @ ?t) ''Unable to SSH to''"
    by (rule strings_Contains_prefix)
  then have "strings_Contains (err_text (errors_New (''Unable to SSH to'' @ ?t)))
               ''Unable to SSH to''"
    by (simp add: errors_New_def)
  with t show ?thesis by blast
qed

lemma connect_accepted:
  "d 0 = Inr c \<Longrightarrow> fst (ConnectToRemoteWithRetry d ssh ip conn) = Inr (Some c)"
  by (simp add: ConnectToRemoteWithRetry_def connect_loop_connected)

theorem readRavenDbInstances_unreachable_entry_witness:
  "readRavenDbInstances fleet recreate_config
     = Inr [node_of ''10.0.0.5'', zero_NodeState, node_of ''10.0.0.7'']
   \<and> Failed ([node_of ''10.0.0.5'', zero_NodeState, node_of ''10.0.0.7''] ! 1) = False"
proof -
  have up: "ReadServer fleet recreate_config ip i = (node_of ip, None)" if "ip \<noteq> ''10.0.0.6''"
    for ip i
    using that connect_accepted [of "ssh_Dial fleet ip" 1]
    by (simp add: ReadServer_def fleet_def)
  from connect_refused [of "ssh_Dial fleet ''10.0.0.6''" "sc_SSH recreate_config" "''10.0.0.6''" None]
  obtain e where e: "fst (ConnectToRemoteWithRetry (ssh_Dial fleet ''10.0.0.6'')
                          (sc_SSH recreate_config) ''10.0.0.6'' None) = Inl e"
    and marker: "strings_Contains (err_text e) ''Unable to SSH to''"
    by (auto simp: fleet_def)
  have down: "ReadServer fleet recreate_config ''10.0.0.6'' i = (zero_NodeState, Some e)" for i
    using e by (simp add: ReadServer_def fleet_def)
  have hosts: "Hosts recreate_config = [''10.0.0.5'', ''10.0.0.6'', ''10.0.0.7'']"
    by (simp add: recreate_config_def)
  have pairs: "zip (Hosts recreate_config) [0 ..< length (Hosts recreate_config)]
                 = [(''10.0.0.5'', 0), (''10.0.0.6'', 1), (''10.0.0.7'', 2)]"
    by (simp add: hosts upt_rec)
  have three: "replicate (length (Hosts recreate_config)) zero_NodeState
                 = [zero_NodeState, zero_NodeState, zero_NodeState]"
    by (simp add: hosts eval_nat_numeral)
  have run: "readRavenDbInstances fleet recreate_config
     = Inr [node_of ''10.0.0.5'', zero_NodeState, node_of ''10.0.0.7'']"
    unfolding readRavenDbInstances_def pairs three
    using marker by (simp add: up down Let_def)
  have i: "(1::nat) < length (Hosts recreate_config)" by (simp add: hosts)
  have at: "Hosts recreate_config ! 1 = ''10.0.0.6''" by (simp add: hosts)
  from readRavenDbInstances_unreachable_entry [OF i down [of 1, folded at] marker run]
  show ?thesis using run by simp
qed

text \<open>
  What does hold of the fleet read: when every failed read of a host is a failure to
  connect, the read returns the array, with one entry per host, and the entry of every
  host that was read without error is that host's node state.
\<close>

lemma read_hosts_no_errors:
  "\<forall>(ip, i) \<in> set ps. \<forall>ns e. ReadServer env sc ip i = (ns, Some e) \<longrightarrow>
       strings_Contains (err_text e) ''Unable to SSH to'' \<Longrightarrow>
   snd (read_hosts env sc ps (arr, errs)) = errs"
proof (induction ps arbitrary: arr errs)
  case Nil
  show ?case by simp
next
  case (Cons p ps)
  obtain ip i where p: "p = (ip, i)" by (cases p)
  obtain ns r where rs: "ReadServer env sc ip i = (ns, r)" by (cases "ReadServer env sc ip i")
  from Cons.prems have rest: "\<forall>(ip, i) \<in> set ps. \<forall>ns e. ReadServer env sc ip i = (ns, Some e) \<longrightarrow>
       strings_Contains (err_text e) ''Unable to SSH to''"
    by simp
  from Cons.prems p rs have "\<forall>e. r = Some e \<longrightarrow> strings_Contains (err_text e) ''Unable to SSH to''"
    by simp
  then show ?case
    using p rs Cons.IH [OF rest] by (cases r) (simp_all add: Let_def)
qed

lemma read_hosts_healthy:
  assumes "ReadServer env sc ip i = (ns, None)"
  shows "distinct (map snd ps) \<Longrightarrow> (ip, i) \<in> set ps \<Longrightarrow> i < length arr \<Longrightarrow>
         fst (read_hosts env sc ps (arr, errs)) ! i = ns"
proof (induction ps arbitrary: arr errs)
  case Nil
  then show ?case by simp
next
  case (Cons p ps)
  obtain ip' j where p: "p = (ip', j)" by (cases p)
  from Cons.prems(1) p have fresh: "j \<notin> snd ` set ps" and d: "distinct (map snd ps)"
    by auto
  show ?case
  proof (cases "j = i")
    case True
    with fresh Cons.prems(2) p have same: "ip' = ip"
      by (metis image_eqI set_ConsD snd_conv prod.inject)
    have "fst (read_hosts env sc (p # ps) (arr, errs))
            = fst (read_hosts env sc ps (arr[i := ns], errs))"
      using p True same assms by simp
    moreover have "fst (read_hosts env sc ps (arr[i := ns], errs)) ! i = arr[i := ns] ! i"
      using fresh True by (simp add: read_hosts_untouched)
    ultimately show ?thesis using Cons.prems(3) by simp
  next
    case False
    with Cons.prems(2) p have mem: "(ip, i) \<in> set ps" by auto
    obtain ns' r where rs: "ReadServer env sc ip' j = (ns', r)"
      by (cases "ReadServer env sc ip' j")
    show ?thesis
      using p rs False Cons.IH [OF d mem] Cons.prems(3)
      by (simp add: Let_def split: option.splits)
  qed
qed

lemma readRavenDbInstances_isolates:
  assumes "\<forall>i < length (Hosts sc). \<forall>ns e. ReadServer env sc (Hosts sc ! i) i = (ns, Some e) \<longrightarrow>
             strings_Contains (err_text e) ''Unable to SSH to''"
  shows "\<exists>nodes. readRavenDbInstances env sc = Inr nodes \<and> length nodes = length (Hosts sc)
           \<and> (\<forall>i < length (Hosts sc). \<forall>ns. ReadServer env sc (Hosts sc ! i) i = (ns, None) \<longrightarrow>
                 nodes ! i = ns)"
proof -
  let ?ps = "zip (Hosts sc) [0 ..< length (Hosts sc)]"
  let ?arr = "replicate (length (Hosts sc)) zero_NodeState"
  let ?nodes = "fst (read_hosts env sc ?ps (?arr, []))"
  have "\<forall>(ip, i) \<in> set ?ps. \<forall>ns e. ReadServer env sc ip i = (ns, Some e) \<longrightarrow>
          strings_Contains (err_text e) ''Unable to SSH to''"
    using assms by (auto simp: set_zip)
  then have "snd (read_hosts env sc ?ps (?arr, [])) = []"
    by (rule read_hosts_no_errors)
  then have run: "readRavenDbInstances env sc = Inr ?nodes"
    by (cases "read_hosts env sc ?ps (?arr, [])") (simp add: readRavenDbInstances_def)
  have len: "length ?nodes = length (Hosts sc)"
    by (simp add: read_hosts_length)
  have "?nodes ! i = ns" if "i < length (Hosts sc)" "ReadServer env sc (Hosts sc ! i) i = (ns, None)"
    for i ns
  proof -
    have d: "distinct (map snd ?ps)" by simp
    have mem: "(Hosts sc ! i, i) \<in> set ?ps"
      using that(1) by (auto simp: set_zip intro!: exI [of _ i])
    show ?thesis
      using that(2) d mem by (rule read_hosts_healthy) (simp add: that(1))
  qed
  with run len show ?thesis by blast
qed

section \<open>Per-host deployment: results\<close>

lemma deployServer_secured:
  assumes "\<not> Unsecured sc"
    and "ssh_ParsePrivateKey env (Pem (sc_SSH sc)) = None"
    and "fst (ConnectToRemoteWithRetry (ssh_Dial env publicIP) (sc_SSH sc) publicIP None) = Inr conn"
    and "run_install env publicIP = None"
  shows "deployServer env continue sc publicIP index = continue None ''https''"
  using assms by (simp add: deployServer_def)

text \<open>
  Claim C9, against the code. For a configuration marked unsecured, once the key has
  parsed, the host is connected and the package is installed, the deployment of the host
  ends in a panic at the assignment into the settings map, which is still \<open>nil\<close>; it
  never reaches the derivation of the URLs.
\<close>

theorem deployServer_unsecured_panics:
  assumes "Unsecured sc"
    and "ssh_ParsePrivateKey env (Pem (sc_SSH sc)) = None"
    and "fst (ConnectToRemoteWithRetry (ssh_Dial env publicIP) (sc_SSH sc) publicIP None) = Inr conn"
    and "run_install env publicIP = None"
  shows "deployServer env continue sc publicIP index
           = Some (Panic ''assignment to entry in nil map'')"
  using assms by (simp add: deployServer_def map_assign_def)

theorem deployServer_unsecured_panics_witness:
  "deployServer fleet (\<lambda>settings scheme. None) unsecured_config ''10.0.0.5'' 0
     = Some (Panic ''assignment to entry in nil map'')"
proof -
  have u: "Unsecured unsecured_config"
    by (simp add: unsecured_config_def)
  have k: "ssh_ParsePrivateKey fleet (Pem (sc_SSH unsecured_config)) = None"
    by (simp add: fleet_def)
  have c: "fst (ConnectToRemoteWithRetry (ssh_Dial fleet ''10.0.0.5'') (sc_SSH unsecured_config)
                  ''10.0.0.5'' None) = Inr (Some 1)"
    by (rule connect_accepted) (simp add: fleet_def)
  have i: "run_install fleet ''10.0.0.5'' = None"
    by (simp add: fleet_def)
  from deployServer_unsecured_panics [OF u k c i]
  show ?thesis .
qed

section \<open>Extraction of the setup archive: results\<close>

lemma split_char_absent: "c \<notin> set s \<Longrightarrow> split_char c s = [s]"
  by (induction s) auto

lemma split_char_first:
  "c \<notin> set dir \<Longrightarrow> split_char c (dir @ c # rest) = dir # split_char c rest"
  by (induction dir) auto

lemma split_char_not_empty: "split_char c s \<noteq> []"
  by (induction s) (auto split: list.splits)

lemma bundle_name_root:
  "CHR ''/'' \<notin> set fileName \<Longrightarrow> bundle_name fileName = ''store''"
  by (simp add: bundle_name_def split_char_absent CREDENTIALS_FOR_SECURE_STORE_FIELD_NAME_def)

lemma bundle_name_folder:
  "CHR ''/'' \<notin> set dir \<Longrightarrow> bundle_name (dir @ ''/'' @ rest) = dir"
  using split_char_not_empty [of "CHR ''/''" rest]
  by (simp add: bundle_name_def split_char_first)

lemma ext_scan_suffix:
  "CHR ''/'' \<notin> set e \<Longrightarrow> CHR ''.'' \<notin> set e \<Longrightarrow>
   ext_scan (rev e @ CHR ''.'' # base) acc = CHR ''.'' # e @ acc"
proof (induction e arbitrary: acc rule: rev_induct)
  case Nil
  show ?case by simp
next
  case (snoc x e)
  then show ?case by auto
qed

lemma filepath_Ext_suffix:
  "CHR ''/'' \<notin> set e \<Longrightarrow> CHR ''.'' \<notin> set e \<Longrightarrow> filepath_Ext (base @ CHR ''.'' # e) = CHR ''.'' # e"
  using ext_scan_suffix [of e "rev base" "[]"] by (simp add: filepath_Ext_def)

lemma extractFiles_class:
  "extractFiles file h = Inr h' \<Longrightarrow> entry_class (zf_Name file) = Some fld \<Longrightarrow>
   zf_bytes file = Inr bytes \<Longrightarrow> field_of fld h' = bytes"
  by (cases fld)
     (auto simp: extractFiles_def entry_class_def Let_def split: if_splits)

lemma extractFiles_other:
  "extractFiles file h = Inr h' \<Longrightarrow> entry_class (zf_Name file) \<noteq> Some fld \<Longrightarrow>
   field_of fld h' = field_of fld h"
  by (cases fld)
     (auto simp: extractFiles_def entry_class_def Let_def split: if_splits sum.splits)

lemma OpenZipFile_loop_dom:
  "OpenZipFile_loop files m = Inr m' \<Longrightarrow> dom m' = dom m \<union> bundle_name ` zf_Name ` set files"
proof (induction files arbitrary: m)
  case Nil
  then show ?case by simp
next
  case (Cons entry entries)
  let ?name = "bundle_name (zf_Name entry)"
  let ?holder = "case m ?name of None \<Rightarrow> fresh_holder | Some h \<Rightarrow> h"
  from Cons.prems obtain holder' where x: "extractFiles entry ?holder = Inr holder'"
    and rest: "OpenZipFile_loop entries (m(?name \<mapsto> holder')) = Inr m'"
    by (auto simp: Let_def split: sum.splits)
  from Cons.IH [OF rest] show ?case by auto
qed

lemma OpenZipFile_loop_keeps:
  "OpenZipFile_loop files m = Inr m' \<Longrightarrow> m k = Some h \<Longrightarrow>
   \<forall>file \<in> set files. \<not> (bundle_name (zf_Name file) = k \<and> entry_class (zf_Name file) = Some fld) \<Longrightarrow>
   \<exists>h'. m' k = Some h' \<and> field_of fld h' = field_of fld h"
proof (induction files arbitrary: m h)
  case Nil
  then show ?case by simp
next
  case (Cons entry entries)
  let ?name = "bundle_name (zf_Name entry)"
  let ?holder = "case m ?name of None \<Rightarrow> fresh_holder | Some h \<Rightarrow> h"
  from Cons.prems(1) obtain holder' where x: "extractFiles entry ?holder = Inr holder'"
    and rest: "OpenZipFile_loop entries (m(?name \<mapsto> holder')) = Inr m'"
    by (auto simp: Let_def split: sum.splits)
  from Cons.prems(3) have later:
    "\<forall>g \<in> set entries. \<not> (bundle_name (zf_Name g) = k \<and> entry_class (zf_Name g) = Some fld)"
    and this_one: "\<not> (?name = k \<and> entry_class (zf_Name entry) = Some fld)"
    by simp_all
  show ?case
  proof (cases "?name = k")
    case True
    with this_one have "entry_class (zf_Name entry) \<noteq> Some fld" by simp
    with x have "field_of fld holder' = field_of fld ?holder" by (rule extractFiles_other)
    with True Cons.prems(2) have same: "field_of fld holder' = field_of fld h" by simp
    have "(m(?name \<mapsto> holder')) k = Some holder'" using True by simp
    from Cons.IH [OF rest this later] same show ?thesis by simp
  next
    case False
    then have "(m(?name \<mapsto> holder')) k = Some h" using Cons.prems(2) by simp
    from Cons.IH [OF rest this later] show ?thesis .
  qed
qed

lemma OpenZipFile_loop_last:
  "OpenZipFile_loop files m = Inr m' \<Longrightarrow> i < length files \<Longrightarrow>
   entry_class (zf_Name (files ! i)) = Some fld \<Longrightarrow> zf_bytes (files ! i) = Inr bytes \<Longrightarrow>
   \<forall>j. i < j \<and> j < length files \<longrightarrow>
       \<not> (bundle_name (zf_Name (files ! j)) = bundle_name (zf_Name (files ! i))
          \<and> entry_class (zf_Name (files ! j)) = Some fld) \<Longrightarrow>
   \<exists>h. m' (bundle_name (zf_Name (files ! i))) = Some h \<and> field_of fld h = bytes"
proof (induction files arbitrary: m i)
  case Nil
  then show ?case by simp
next
  case (Cons entry entries)
  let ?name = "bundle_name (zf_Name entry)"
  let ?holder = "case m ?name of None \<Rightarrow> fresh_holder | Some h \<Rightarrow> h"
  from Cons.prems(1) obtain holder' where x: "extractFiles entry ?holder = Inr holder'"
    and rest: "OpenZipFile_loop entries (m(?name \<mapsto> holder')) = Inr m'"
    by (auto simp: Let_def split: sum.splits)
  show ?case
  proof (cases i)
    case 0
    with Cons.prems(3,4) have cls: "entry_class (zf_Name entry) = Some fld"
      and bytes: "zf_bytes entry = Inr bytes" by simp_all
    from x cls bytes have f: "field_of fld holder' = bytes" by (rule extractFiles_class)
    have at: "(m(?name \<mapsto> holder')) ?name = Some holder'" by simp
    have later: "\<forall>g \<in> set entries. \<not> (bundle_name (zf_Name g) = ?name
                    \<and> entry_class (zf_Name g) = Some fld)"
    proof
      fix g assume "g \<in> set entries"
      then obtain j where j: "j < length entries" "entries ! j = g"
        by (auto simp: in_set_conv_nth)
      with Cons.prems(5) 0 have "\<not> (bundle_name (zf_Name ((entry # entries) ! Suc j)) = ?name
                    \<and> entry_class (zf_Name ((entry # entries) ! Suc j)) = Some fld)"
        by (metis Suc_less_eq length_Cons nth_Cons_0 zero_less_Suc)
      with j show "\<not> (bundle_name (zf_Name g) = ?name \<and> entry_class (zf_Name g) = Some fld)"
        by simp
    qed
    from OpenZipFile_loop_keeps [OF rest at later] f 0 show ?thesis by simp
  next
    case (Suc n)
    with Cons.prems(2) have n: "n < length entries" by simp
    from Suc Cons.prems(3,4) have cls: "entry_class (zf_Name (entries ! n)) = Some fld"
      and bytes: "zf_bytes (entries ! n) = Inr bytes" by simp_all
    have later: "\<forall>j. n < j \<and> j < length entries \<longrightarrow>
       \<not> (bundle_name (zf_Name (entries ! j)) = bundle_name (zf_Name (entries ! n))
          \<and> entry_class (zf_Name (entries ! j)) = Some fld)"
    proof (intro allI impI)
      fix j assume "n < j \<and> j < length entries"
      then have "i < Suc j \<and> Suc j < length (entry # entries)" using Suc by simp
      with Cons.prems(5) have "\<not> (bundle_name (zf_Name ((entry # entries) ! Suc j))
             = bundle_name (zf_Name ((entry # entries) ! i))
          \<and> entry_class (zf_Name ((entry # entries) ! Suc j)) = Some fld)"
        by blast
      then show "\<not> (bundle_name (zf_Name (entries ! j)) = bundle_name (zf_Name (entries ! n))
          \<and> entry_class (zf_Name (entries ! j)) = Some fld)"
        using Suc by simp
    qed
    from Cons.IH [OF rest n cls bytes later] Suc show ?thesis by simp
  qed
qed

lemma extractFiles_readable:
  "zf_bytes entry = Inr bytes \<Longrightarrow> \<exists>h'. extractFiles entry h = Inr h'"
  by (simp add: extractFiles_def Let_def)

lemma extractFiles_unreadable:
  "zf_bytes entry = Inl err \<Longrightarrow> extractFiles entry h = Inl err"
  by (simp add: extractFiles_def)

lemma OpenZipFile_loop_total:
  "\<forall>f \<in> set files. \<exists>bytes. zf_bytes f = Inr bytes \<Longrightarrow> \<exists>m'. OpenZipFile_loop files m = Inr m'"
proof (induction files arbitrary: m)
  case Nil
  show ?case by simp
next
  case (Cons entry entries)
  let ?name = "bundle_name (zf_Name entry)"
  let ?holder = "case m ?name of None \<Rightarrow> fresh_holder | Some h \<Rightarrow> h"
  from Cons.prems obtain bytes where "zf_bytes entry = Inr bytes" by auto
  then obtain holder' where x: "extractFiles entry ?holder = Inr holder'"
    using extractFiles_readable by blast
  from Cons.prems have "\<forall>f \<in> set entries. \<exists>bytes. zf_bytes f = Inr bytes" by simp
  from Cons.IH [OF this] obtain m' where
    "OpenZipFile_loop entries (m(?name \<mapsto> holder')) = Inr m'" by blast
  with x show ?case by (simp add: Let_def)
qed

lemma OpenZipFile_loop_unreadable:
  "i < length files \<Longrightarrow> zf_bytes (files ! i) = Inl err \<Longrightarrow>
   \<forall>j < i. \<exists>bytes. zf_bytes (files ! j) = Inr bytes \<Longrightarrow>
   OpenZipFile_loop files m = Inl err"
proof (induction files arbitrary: m i)
  case Nil
  then show ?case by simp
next
  case (Cons entry entries)
  let ?name = "bundle_name (zf_Name entry)"
  let ?holder = "case m ?name of None \<Rightarrow> fresh_holder | Some h \<Rightarrow> h"
  show ?case
  proof (cases i)
    case 0
    with Cons.prems(2) have "extractFiles entry ?holder = Inl err"
      by (simp add: extractFiles_unreadable)
    then show ?thesis by (simp add: Let_def)
  next
    case (Suc n)
    with Cons.prems(3) obtain bytes where "zf_bytes entry = Inr bytes" by fastforce
    then obtain holder' where x: "extractFiles entry ?holder = Inr holder'"
      using extractFiles_readable by blast
    from Suc Cons.prems have n: "n < length entries" "zf_bytes (entries ! n) = Inl err"
      by simp_all
    have "\<forall>j < n. \<exists>bytes. zf_bytes (entries ! j) = Inr bytes"
    proof (intro allI impI)
      fix j assume "j < n"
      then have "Suc j < i" using Suc by simp
      with Cons.prems(3) have "\<exists>bytes. zf_bytes ((entry # entries) ! Suc j) = Inr bytes" by blast
      then show "\<exists>bytes. zf_bytes (entries ! j) = Inr bytes" by simp
    qed
    from Cons.IH [OF n this] x show ?thesis by (simp add: Let_def)
  qed
qed

lemma setup_archive_names:
  "bundle_name ''A/server.pfx'' = ''A''" "bundle_name ''A/settings.json'' = ''A''"
  "bundle_name ''license.json'' = ''store''"
  "entry_class ''A/server.pfx'' = Some PfxField"
  "entry_class ''A/settings.json'' = Some SettingsJsonField"
  "entry_class ''license.json'' = Some LicenseField"
  "filepath_Ext ''A/server.pfx'' = ''.pfx''" "filepath_Ext ''A/settings.json'' = ''.json''"
  "filepath_Ext ''license.json'' = ''.json''"
  by code_simp+

lemma repeating_archive_names:
  "bundle_name ''A/first.pfx'' = ''A''" "bundle_name ''A/second.pfx'' = ''A''"
  "filepath_Ext ''A/first.pfx'' = ''.pfx''" "filepath_Ext ''A/second.pfx'' = ''.pfx''"
  by code_simp+

text \<open>
  Claim C6, as the code has it. When the archive opens and every entry can be read, the
  extraction returns a bundle map. Its keys are the bundle names of the entries: \<open>store\<close>
  for a name without a slash, the first path element for a name with one. Every entry's
  bytes go to the field of its class (\<open>.pfx\<close>, \<open>.crt\<close>, \<open>.key\<close>, the root
  \<open>license.json\<close>, any other \<open>.json\<close>), and a field holds exactly the bytes of the
  last entry of its bundle and class: a later entry replaces what an earlier one put
  there.
\<close>

theorem OpenZipFile_bundles:
  assumes "zip_OpenReader path = Inr files"
    and "\<forall>f \<in> set files. \<exists>bytes. zf_bytes f = Inr bytes"
  shows "\<exists>bundles. OpenZipFile zip_OpenReader sc path = Inr bundles
       \<and> dom bundles = bundle_name ` zf_Name ` set files
       \<and> (\<forall>fileName. CHR ''/'' \<notin> set fileName \<longrightarrow> bundle_name fileName = ''store'')
       \<and> (\<forall>dir rest. CHR ''/'' \<notin> set dir \<longrightarrow> bundle_name (dir @ ''/'' @ rest) = dir)
       \<and> (\<forall>i fld bytes.
             i < length files \<and> entry_class (zf_Name (files ! i)) = Some fld
             \<and> zf_bytes (files ! i) = Inr bytes
             \<and> (\<forall>j. i < j \<and> j < length files \<longrightarrow>
                    \<not> (bundle_name (zf_Name (files ! j)) = bundle_name (zf_Name (files ! i))
                       \<and> entry_class (zf_Name (files ! j)) = Some fld))
           \<longrightarrow> extracted (Inr bundles) (bundle_name (zf_Name (files ! i))) fld = Some bytes)"
proof -
  from OpenZipFile_loop_total [OF assms(2)] obtain bundles where
    loop: "OpenZipFile_loop files Map.empty = Inr bundles" by blast
  with assms(1) have run: "OpenZipFile zip_OpenReader sc path = Inr bundles"
    by (simp add: OpenZipFile_def)
  have keys: "dom bundles = bundle_name ` zf_Name ` set files"
    using OpenZipFile_loop_dom [OF loop] by simp
  have fields: "extracted (Inr bundles) (bundle_name (zf_Name (files ! i))) fld = Some bytes"
    if "i < length files \<and> entry_class (zf_Name (files ! i)) = Some fld
             \<and> zf_bytes (files ! i) = Inr bytes
             \<and> (\<forall>j. i < j \<and> j < length files \<longrightarrow>
                    \<not> (bundle_name (zf_Name (files ! j)) = bundle_name (zf_Name (files ! i))
                       \<and> entry_class (zf_Name (files ! j)) = Some fld))"
    for i fld bytes
  proof -
    from that OpenZipFile_loop_last [OF loop, of i fld bytes]
    obtain h where "bundles (bundle_name (zf_Name (files ! i))) = Some h" "field_of fld h = bytes"
      by blast
    then show ?thesis by (simp add: extracted_def)
  qed
  show ?thesis
  proof (intro exI conjI allI impI)
    show "OpenZipFile zip_OpenReader sc path = Inr bundles" by (rule run)
    show "dom bundles = bundle_name ` zf_Name ` set files" by (rule keys)
    show "bundle_name fileName = ''store''" if "CHR ''/'' \<notin> set fileName" for fileName
      using that by (rule bundle_name_root)
    show "bundle_name (dir @ ''/'' @ rest) = dir" if "CHR ''/'' \<notin> set dir" for dir rest
      using that by (rule bundle_name_folder)
    show "extracted (Inr bundles) (bundle_name (zf_Name (files ! i))) fld = Some bytes"
      if "i < length files \<and> entry_class (zf_Name (files ! i)) = Some fld
             \<and> zf_bytes (files ! i) = Inr bytes
             \<and> (\<forall>j. i < j \<and> j < length files \<longrightarrow>
                    \<not> (bundle_name (zf_Name (files ! j)) = bundle_name (zf_Name (files ! i))
                       \<and> entry_class (zf_Name (files ! j)) = Some fld))"
      for i fld bytes
      using that by (rule fields)
  qed
qed

theorem OpenZipFile_bundles_witness:
  "\<exists>bundles. OpenZipFile (\<lambda>path. Inr setup_archive) recreate_config ''setup.zip'' = Inr bundles
      \<and> dom bundles = {''A'', ''store''}
      \<and> extracted (Inr bundles) ''A'' PfxField = Some ''pfx-bytes''
      \<and> extracted (Inr bundles) ''store'' LicenseField = Some ''license-bytes''"
proof -
  have reader: "(\<lambda>path. Inr setup_archive) ''setup.zip'' = (Inr setup_archive :: go_error + zip_File list)"
    by simp
  have readable: "\<forall>f \<in> set setup_archive. \<exists>bytes. zf_bytes f = Inr bytes"
    by (simp add: setup_archive_def)
  from OpenZipFile_bundles [OF reader readable, of recreate_config]
  obtain bundles where all:
    "OpenZipFile (\<lambda>path. Inr setup_archive) recreate_config ''setup.zip'' = Inr bundles
       \<and> dom bundles = bundle_name ` zf_Name ` set setup_archive
       \<and> (\<forall>fileName. CHR ''/'' \<notin> set fileName \<longrightarrow> bundle_name fileName = ''store'')
       \<and> (\<forall>dir rest. CHR ''/'' \<notin> set dir \<longrightarrow> bundle_name (dir @ ''/'' @ rest) = dir)
       \<and> (\<forall>i fld bytes.
             i < length setup_archive \<and> entry_class (zf_Name (setup_archive ! i)) = Some fld
             \<and> zf_bytes (setup_archive ! i) = Inr bytes
             \<and> (\<forall>j. i < j \<and> j < length setup_archive \<longrightarrow>
                    \<not> (bundle_name (zf_Name (setup_archive ! j)) = bundle_name (zf_Name (setup_archive ! i))
                       \<and> entry_class (zf_Name (setup_archive ! j)) = Some fld))
           \<longrightarrow> extracted (Inr bundles) (bundle_name (zf_Name (setup_archive ! i))) fld = Some bytes)"
    ..
  note run = all [THEN conjunct1]
  note dom = all [THEN conjunct2, THEN conjunct1]
  note fields = all [THEN conjunct2, THEN conjunct2, THEN conjunct2, THEN conjunct2]
  have keys: "dom bundles = {''A'', ''store''}"
    using dom by (simp add: setup_archive_def setup_archive_names)
  have first: "(0::nat) < length setup_archive
      \<and> entry_class (zf_Name (setup_archive ! 0)) = Some PfxField
      \<and> zf_bytes (setup_archive ! 0) = Inr ''pfx-bytes''
      \<and> (\<forall>j. 0 < j \<and> j < length setup_archive \<longrightarrow>
             \<not> (bundle_name (zf_Name (setup_archive ! j)) = bundle_name (zf_Name (setup_archive ! 0))
                \<and> entry_class (zf_Name (setup_archive ! j)) = Some PfxField))"
    by (auto simp: setup_archive_def setup_archive_names nth_Cons' less_Suc_eq)
  have last: "(2::nat) < length setup_archive
      \<and> entry_class (zf_Name (setup_archive ! 2)) = Some LicenseField
      \<and> zf_bytes (setup_archive ! 2) = Inr ''license-bytes''
      \<and> (\<forall>j. 2 < j \<and> j < length setup_archive \<longrightarrow>
             \<not> (bundle_name (zf_Name (setup_archive ! j)) = bundle_name (zf_Name (setup_archive ! 2))
                \<and> entry_class (zf_Name (setup_archive ! j)) = Some LicenseField))"
    by (auto simp: setup_archive_def setup_archive_names)
  have pfx: "extracted (Inr bundles) ''A'' PfxField = Some ''pfx-bytes''"
    using fields [THEN spec, THEN spec, THEN spec, THEN mp, OF first]
    by (simp add: setup_archive_def setup_archive_names)
  have license: "extracted (Inr bundles) ''store'' LicenseField = Some ''license-bytes''"
    using fields [THEN spec, THEN spec, THEN spec, THEN mp, OF last]
    by (simp add: setup_archive_def setup_archive_names)
  from run keys pfx license show ?thesis by (intro exI conjI)
qed

text \<open>
  Two \<open>.pfx\<close> entries in folder \<open>A\<close>: the bundle holds the bytes of the second, not
  the concatenation.
\<close>

theorem OpenZipFile_overwrites_counterexample:
  "extracted (OpenZipFile (\<lambda>path. Inr repeating_archive) recreate_config ''setup.zip'')
       ''A'' PfxField = Some ''two''
   \<and> ''two'' \<noteq> ''one'' @ ''two''"
  by (simp add: OpenZipFile_def repeating_archive_def extractFiles_def repeating_archive_names
        fresh_holder_def Let_def extracted_def)

text \<open>
  The earlier form of the two functions does concatenate the \<open>.pfx\<close> bytes, and leaves
  the licence of the example archive empty.
\<close>

lemma OpenZipFile_earlier_appends:
  "extracted (OpenZipFile_earlier (\<lambda>path. Inr repeating_archive) recreate_config ''setup.zip'')
       ''A'' PfxField = Some (''one'' @ ''two'')"
  by (simp add: OpenZipFile_earlier_def repeating_archive_def extractFiles_earlier_def
        repeating_archive_names fresh_holder_def Let_def extracted_def)

lemma OpenZipFile_earlier_ignores_json:
  "extracted (OpenZipFile_earlier (\<lambda>path. Inr setup_archive) recreate_config ''setup.zip'')
       ''store'' LicenseField = Some []"
  by (simp add: OpenZipFile_earlier_def setup_archive_def extractFiles_earlier_def
        setup_archive_names fresh_holder_def Let_def extracted_def)

section \<open>The displayed hash of an encryption key: results\<close>

lemma hex_digit_inj: "a < 16 \<Longrightarrow> b < 16 \<Longrightarrow> hex_digit a = hex_digit b \<Longrightarrow> a = b"
proof -
  assume a: "a < 16" and b: "b < 16" and eq: "hex_digit a = hex_digit b"
  have d: "distinct ''0123456789abcdef''" by simp
  have "a < length ''0123456789abcdef''" "b < length ''0123456789abcdef''"
    using a b by simp_all
  with d eq show "a = b"
    unfolding hex_digit_def by (simp add: nth_eq_iff_index_eq)
qed

lemma hex_byte_inj:
  assumes "hex_digit ((of_char x :: nat) div 16) = hex_digit ((of_char y :: nat) div 16)"
    and "hex_digit ((of_char x :: nat) mod 16) = hex_digit ((of_char y :: nat) mod 16)"
  shows "x = y"
proof -
  have bx: "(of_char x :: nat) < 256" and bnd: "(of_char y :: nat) < 256"
    by (simp_all add: of_char_def)
  have "(of_char x :: nat) div 16 < 16" "(of_char y :: nat) div 16 < 16"
    using bx bnd by presburger+
  with assms(1) have hi: "(of_char x :: nat) div 16 = of_char y div 16"
    by (rule hex_digit_inj [rotated 2])
  have "(of_char x :: nat) mod 16 < 16" "(of_char y :: nat) mod 16 < 16" by simp_all
  with assms(2) have lo: "(of_char x :: nat) mod 16 = of_char y mod 16"
    by (rule hex_digit_inj [rotated 2])
  from hi lo have "(of_char x :: nat) = of_char y"
    by (metis div_mult_mod_eq)
  then show "x = y" by (metis char_of_char)
qed

lemma hex_EncodeToString_inj:
  "hex_EncodeToString xs = hex_EncodeToString ys \<Longrightarrow> xs = ys"
proof (induction xs arbitrary: ys)
  case Nil
  then show ?case by (cases ys) (simp_all add: hex_EncodeToString_def)
next
  case (Cons x xs)
  then obtain y ys' where ys: "ys = y # ys'"
    by (cases ys) (simp_all add: hex_EncodeToString_def)
  with Cons.prems have "x = y" and "hex_EncodeToString xs = hex_EncodeToString ys'"
    by (auto simp: hex_EncodeToString_def dest: hex_byte_inj)
  with Cons.IH ys show ?case by simp
qed

text \<open>
  With the random bytes and the key derivation as parameters: the displayed value is the
  hexadecimal form of the derived key alone, computed from the plain text and the
  sixteen bytes just drawn; two calls on the same plain text agree exactly when the key
  derivation agrees on the two salts drawn. How likely that is, and that the value
  cannot be checked against the key later, are statements about the random source and
  about Argon2, outside this embedding.
\<close>

lemma encryptionKeyHash_agree:
  assumes "rand_Read 16 = Inr salt" and "rand_Read' 16 = Inr salt'"
  shows "encryptionKeyHash argon2_IDKey rand_Read plainText
           = Inr (hex_EncodeToString (argon2_IDKey plainText salt 4 (64 * 1024) 4 32))"
    and "encryptionKeyHash argon2_IDKey rand_Read plainText
           = encryptionKeyHash argon2_IDKey rand_Read' plainText
         \<longleftrightarrow> argon2_IDKey plainText salt 4 (64 * 1024) 4 32
             = argon2_IDKey plainText salt' 4 (64 * 1024) 4 32"
  using assms hex_EncodeToString_inj
  by (auto simp: encryptionKeyHash_def generateFromPlainText_def generateRandomBytes_def)

end
